theory Spec2Isabelle
  imports Main "HOL-Library.Word"
begin

unbundle bit_operations_syntax

section \<open>The byte buffer of \<^verbatim>\<open>src/bytes.go\<close>\<close>

text \<open>
  The Go package \<^verbatim>\<open>mbytes\<close> keeps a byte slice and a position. A Go \<^verbatim>\<open>byte\<close> is an
  \<open>8 word\<close>, an \<^verbatim>\<open>int64\<close> or \<^verbatim>\<open>uint64\<close> argument is a \<open>64 word\<close> (read with
  \<open>sint\<close> when the code treats it as signed). Values of Go's type \<^verbatim>\<open>int\<close> (the
  position, lengths, counts) are HOL integers, and every addition or subtraction the
  source performs on them is wrapped to 64 bits by \<open>wrap64\<close>, the behaviour of
  \<^verbatim>\<open>int\<close> on a 64-bit platform. A slice is a HOL list; running out of memory is not
  modelled. A method with a pointer receiver takes the buffer and returns the new one.
\<close>

type_synonym byte = "8 word"
type_synonym int64 = "64 word"
type_synonym uint64 = "64 word"

definition wrap64 :: "int \<Rightarrow> int" where
  "wrap64 x = (x + 2 ^ 63) mod 2 ^ 64 - 2 ^ 63"

text \<open>The largest value of Go's \<^verbatim>\<open>int\<close>; no slice is longer.\<close>

definition MaxInt :: int where
  "MaxInt = 2 ^ 63 - 1"

definition len :: "'a list \<Rightarrow> int" where
  "len xs = int (length xs)"

text \<open>The error values declared at the top of the file, and \<^verbatim>\<open>io.EOF\<close>.\<close>

datatype error =
    ErrWhenceUnknown
  | ErrSeekNegative
  | ErrSeekOverflow
  | ErrOffsetNegative
  | ErrOffsetOverflow
  | ErrByteRead
  | EOF
  | ErrVarintOverflow

text \<open>
  A call either returns or panics (a slice expression out of range). \<open>Ret\<close> carries
  everything the call returns, the updated buffer first; Go's \<^verbatim>\<open>nil\<close> error is \<open>None\<close>.
\<close>

datatype 'a outcome = Panic | Ret 'a

definition and_then :: "'a outcome \<Rightarrow> ('a \<Rightarrow> 'b outcome) \<Rightarrow> 'b outcome" where
  "and_then r f = (case r of Panic \<Rightarrow> Panic | Ret x \<Rightarrow> f x)"

record ByteBuffer =
  buff :: "byte list"
  pos :: int

subsection \<open>Slices\<close>

text \<open>
  \<^verbatim>\<open>s[lo:]\<close> panics unless \<open>0 \<le> lo \<le> len s\<close>. \<^verbatim>\<open>s[:hi]\<close> panics unless
  \<open>0 \<le> hi \<le> cap s\<close>; the capacity is not modelled, the one use in the source has
  \<open>hi \<le> len s\<close>. \<^verbatim>\<open>copy(dst, src)\<close> overwrites the first
  \<open>min (len dst) (len src)\<close> elements of \<open>dst\<close>; the model returns the new \<open>dst\<close>.
\<close>

definition slice_from :: "'a list \<Rightarrow> int \<Rightarrow> 'a list outcome" where
  "slice_from s lo = (if 0 \<le> lo \<and> lo \<le> len s then Ret (drop (nat lo) s) else Panic)"

definition slice_to :: "'a list \<Rightarrow> int \<Rightarrow> 'a list outcome" where
  "slice_to s hi = (if 0 \<le> hi \<and> hi \<le> len s then Ret (take (nat hi) s) else Panic)"

definition copy :: "'a list \<Rightarrow> 'a list \<Rightarrow> 'a list" where
  "copy dst src = take (min (length dst) (length src)) src @ drop (length src) dst"

text \<open>
  Modelled from the spec: \<^verbatim>\<open>min_int\<close> is called by \<^verbatim>\<open>readFromPos\<close> but declared in a
  file that is not under \<^verbatim>\<open>src/\<close>. The spec has \<open>n = min(available, length(dst))\<close>.
\<close>

definition min_int :: "int \<Rightarrow> int \<Rightarrow> int" where
  "min_int a b = (if a < b then a else b)"

subsection \<open>Construction\<close>

definition Reset :: "ByteBuffer \<Rightarrow> nat \<Rightarrow> ByteBuffer" where
  "Reset m sz =
     (if sz > 0 then m\<lparr>buff := replicate sz 0, pos := 0\<rparr>
      else m\<lparr>buff := [], pos := 0\<rparr>)"

definition NewByteBuffer :: "nat \<Rightarrow> ByteBuffer" where
  "NewByteBuffer sz = Reset \<lparr>buff = [], pos = 0\<rparr> sz"

definition Clear :: "ByteBuffer \<Rightarrow> ByteBuffer" where
  "Clear m = Reset m 0"

definition Size :: "ByteBuffer \<Rightarrow> nat" where
  "Size m = length (buff m)"

definition Pos :: "ByteBuffer \<Rightarrow> int" where
  "Pos m = pos m"

definition Clone :: "ByteBuffer \<Rightarrow> ByteBuffer" where
  "Clone m = (let r = NewByteBuffer (Size m) in r\<lparr>pos := 0, buff := copy (buff r) (buff m)\<rparr>)"

definition posOverflow :: "ByteBuffer \<Rightarrow> int \<Rightarrow> bool" where
  "posOverflow m p \<longleftrightarrow> p \<ge> len (buff m)"

subsection \<open>Seeking\<close>

definition SeekStart :: int where "SeekStart = 0"
definition SeekCurrent :: int where "SeekCurrent = 1"
definition SeekEnd :: int where "SeekEnd = 2"

text \<open>The \<^verbatim>\<open>switch whence\<close> of \<^verbatim>\<open>Seek\<close>: the target, or \<open>None\<close> in the default case.\<close>

definition seek_target :: "ByteBuffer \<Rightarrow> int64 \<Rightarrow> int \<Rightarrow> int option" where
  "seek_target m offset whence =
     (let p = sint offset in
      if whence = SeekStart then Some p
      else if whence = SeekCurrent then Some (wrap64 (p + pos m))
      else if whence = SeekEnd then Some (wrap64 (p + len (buff m)))
      else None)"

definition Seek :: "ByteBuffer \<Rightarrow> int64 \<Rightarrow> int \<Rightarrow> ByteBuffer \<times> int64 \<times> error option" where
  "Seek m offset whence =
     (case seek_target m offset whence of
        None \<Rightarrow> (m, - 1, Some ErrWhenceUnknown)
      | Some p \<Rightarrow>
          if p < 0 then (m, - 1, Some ErrSeekNegative)
          else if posOverflow m p then (m, - 1, Some ErrSeekOverflow)
          else (m\<lparr>pos := p\<rparr>, word_of_int p, None))"

definition SeekFromStart :: "ByteBuffer \<Rightarrow> int64 \<Rightarrow> ByteBuffer \<times> int64 \<times> error option" where
  "SeekFromStart m offset = Seek m offset SeekStart"

definition SeekFromCurrent :: "ByteBuffer \<Rightarrow> int64 \<Rightarrow> ByteBuffer \<times> int64 \<times> error option" where
  "SeekFromCurrent m offset = Seek m offset SeekCurrent"

definition SeekFromEnd :: "ByteBuffer \<Rightarrow> int64 \<Rightarrow> ByteBuffer \<times> int64 \<times> error option" where
  "SeekFromEnd m offset = Seek m offset SeekEnd"

definition SeekToStart :: "ByteBuffer \<Rightarrow> ByteBuffer \<times> int64 \<times> error option" where
  "SeekToStart m = Seek m 0 SeekStart"

definition SeekToEnd :: "ByteBuffer \<Rightarrow> ByteBuffer \<times> int64 \<times> error option" where
  "SeekToEnd m = Seek m 0 SeekEnd"

subsection \<open>Reading\<close>

text \<open>
  \<^verbatim>\<open>readFromPos\<close> returns the buffer, the destination slice after the copy, the count
  and the error. The count and \<^verbatim>\<open>io.EOF\<close> can come back together.
\<close>

definition readFromPos ::
  "ByteBuffer \<Rightarrow> byte list \<Rightarrow> int \<Rightarrow> bool \<Rightarrow> (ByteBuffer \<times> byte list \<times> int \<times> error option) outcome"
where
  "readFromPos m p ps incPos =
     (let l = len p;
          avail = wrap64 (len (buff m) - ps)
      in if avail > 0 then
           (let n = min_int avail l in
            and_then (slice_from (buff m) ps) (\<lambda>s.
              let p' = copy p s;
                  m' = (if incPos then m\<lparr>pos := wrap64 (pos m + n)\<rparr> else m)
              in Ret (m', p', n, if n < l then Some EOF else None)))
         else Ret (m, p, - 1, Some EOF))"

definition Read ::
  "ByteBuffer \<Rightarrow> byte list \<Rightarrow> (ByteBuffer \<times> byte list \<times> int \<times> error option) outcome"
where
  "Read m p = readFromPos m p (pos m) True"

definition ReadAt ::
  "ByteBuffer \<Rightarrow> byte list \<Rightarrow> int64 \<Rightarrow> (ByteBuffer \<times> byte list \<times> int \<times> error option) outcome"
where
  "ReadAt m p off =
     (let ps = sint off in
      if ps < 0 then Ret (m, p, - 1, Some ErrOffsetNegative)
      else if posOverflow m ps then Ret (m, p, - 1, Some ErrOffsetOverflow)
      else readFromPos m p ps False)"

subsection \<open>Writing\<close>

text \<open>
  \<^verbatim>\<open>writeFromPos\<close> returns the buffer, \<open>appended\<close>, \<open>written\<close> and the error (always
  \<^verbatim>\<open>nil\<close>). The copy goes through the sub-slice \<^verbatim>\<open>m.buff[pos:]\<close>, which shares its
  array with \<^verbatim>\<open>m.buff\<close>, so the bytes before \<open>pos\<close> stay.
\<close>

definition writeFromPos ::
  "ByteBuffer \<Rightarrow> byte list \<Rightarrow> int \<Rightarrow> (ByteBuffer \<times> int \<times> int \<times> error option) outcome"
where
  "writeFromPos m p ps =
     (let l = len p;
          noverlap0 = wrap64 (len (buff m) - ps);
          noverlap = (if noverlap0 > l then l else noverlap0);
          nappend = wrap64 (l - noverlap)
      in and_then
           (if noverlap > 0 then
              and_then (slice_from (buff m) ps) (\<lambda>d.
              and_then (slice_to p noverlap) (\<lambda>s.
                Ret (m\<lparr>buff := take (nat ps) (buff m) @ copy d s\<rparr>)))
            else Ret m)
           (\<lambda>m1.
         and_then
           (if nappend > 0 then
              and_then (slice_from p noverlap) (\<lambda>s. Ret (m1\<lparr>buff := buff m1 @ s\<rparr>))
            else Ret m1)
           (\<lambda>m2. Ret (m2, nappend, l, None))))"

definition Write :: "ByteBuffer \<Rightarrow> byte list \<Rightarrow> (ByteBuffer \<times> int \<times> error option) outcome" where
  "Write m p =
     and_then (writeFromPos m p (pos m)) (\<lambda>(m', appended, written, err).
       case err of
         Some e \<Rightarrow> Ret (m', - 1, Some e)
       | None \<Rightarrow> Ret (m'\<lparr>pos := wrap64 (pos m' + appended)\<rparr>, written, None))"

definition WriteAt ::
  "ByteBuffer \<Rightarrow> byte list \<Rightarrow> int64 \<Rightarrow> (ByteBuffer \<times> int \<times> error option) outcome"
where
  "WriteAt m p off =
     (if sint off < 0 then Ret (m, - 1, Some ErrOffsetNegative)
      else if posOverflow m (sint off) then Ret (m, - 1, Some ErrOffsetOverflow)
      else and_then (writeFromPos m p (sint off)) (\<lambda>(m', appended, written, err).
        case err of
          Some e \<Rightarrow> Ret (m', - 1, Some e)
        | None \<Rightarrow> Ret (m'\<lparr>pos := wrap64 (pos m' + appended)\<rparr>, written, None)))"

subsection \<open>Single bytes\<close>

text \<open>\<^verbatim>\<open>p[0]\<close> is in range: \<open>p\<close> is made with length 1 and \<open>copy\<close> keeps the length.\<close>

definition ReadByte :: "ByteBuffer \<Rightarrow> (ByteBuffer \<times> byte \<times> error option) outcome" where
  "ReadByte m =
     and_then (Read m (replicate 1 0)) (\<lambda>(m', p, n, err).
       case err of
         Some e \<Rightarrow> Ret (m', 0, Some e)
       | None \<Rightarrow> if n \<noteq> 1 then Ret (m', 0, Some ErrByteRead) else Ret (m', p ! 0, None))"

definition WriteByte :: "ByteBuffer \<Rightarrow> byte \<Rightarrow> ByteBuffer \<times> error option" where
  "WriteByte m c =
     (let m1 = m\<lparr>buff := buff m @ [c]\<rparr> in (m1\<lparr>pos := len (buff m1)\<rparr>, None))"

definition ByteAt :: "ByteBuffer \<Rightarrow> int \<Rightarrow> (ByteBuffer \<times> byte \<times> error option) outcome" where
  "ByteAt m ps =
     and_then (ReadAt m (replicate 1 0) (word_of_int ps)) (\<lambda>(m', p, n, err).
       case err of
         Some e \<Rightarrow> Ret (m', 0, Some e)
       | None \<Rightarrow> if n \<noteq> 1 then Ret (m', 0, Some ErrByteRead) else Ret (m', p ! 0, None))"

subsection \<open>Unsigned varints\<close>

text \<open>
  \<^verbatim>\<open>binary.MaxVarintLen64\<close>, \<^verbatim>\<open>binary.PutUvarint\<close> and \<^verbatim>\<open>binary.ReadUvarint\<close> belong to
  Go's package \<^verbatim>\<open>encoding/binary\<close>, which \<^verbatim>\<open>src/bytes.go\<close> imports and which is not
  under \<^verbatim>\<open>src/\<close>. They are modelled from the spec's description of the codec, in the
  shape of the library's loops.
\<close>

text \<open>
  Modelled from the spec: \<^verbatim>\<open>binary.MaxVarintLen64\<close> is missing; the spec has at most 10
  bytes for a full 64-bit value.
\<close>

definition MaxVarintLen64 :: nat where
  "MaxVarintLen64 = 10"

text \<open>
  Modelled from the spec: \<^verbatim>\<open>binary.PutUvarint\<close> is missing. The spec: repeatedly emit
  the low 7 bits of the remaining value, with the high bit set to 1 if more groups
  follow and 0 on the final group. The bytes go to \<open>buf[0]\<close>, \<open>buf[1]\<close>, \<dots> (an index
  out of range panics), and the number of bytes is returned.
\<close>

function PutUvarint_loop :: "byte list \<Rightarrow> uint64 \<Rightarrow> nat \<Rightarrow> (byte list \<times> int) outcome" where
  "PutUvarint_loop buf x i =
     (if x \<ge> 0x80 then
        (if i < length buf
         then PutUvarint_loop (buf[i := ucast x OR 0x80]) (drop_bit 7 x) (i + 1)
         else Panic)
      else
        (if i < length buf then Ret (buf[i := ucast x], int i + 1) else Panic))"
  by pat_completeness auto
termination
proof (relation "measure (\<lambda>(buf, x, i). unat x)")
  show "wf (measure (\<lambda>(buf, x, i). unat x))" by simp
next
  fix buf :: "byte list" and x :: uint64 and i :: nat
  assume "128 \<le> x"
  then have "128 \<le> unat x" by (simp add: word_le_nat_alt)
  then have "unat x div 128 < unat x" by simp
  then show "((buf[i := ucast x OR 128], drop_bit 7 x, i + 1), buf, x, i)
             \<in> measure (\<lambda>(buf, x, i). unat x)"
    by (simp add: drop_bit_eq_div unat_div)
qed

text \<open>Modelled from the spec: \<^verbatim>\<open>binary.PutUvarint\<close>, the loop above from index 0.\<close>

definition PutUvarint :: "byte list \<Rightarrow> uint64 \<Rightarrow> (byte list \<times> int) outcome" where
  "PutUvarint buf x = PutUvarint_loop buf x 0"

text \<open>
  Modelled from the spec: \<^verbatim>\<open>binary.ReadUvarint\<close> is missing. The spec: read bytes one
  at a time with \<^verbatim>\<open>ReadByte\<close>, accumulating 7-bit groups, least significant group first,
  each later group shifted left by a further 7 bits, until a byte with the high bit
  clear is consumed; fail with the error \<^verbatim>\<open>ReadByte\<close> returns. The library in addition
  stops after \<^verbatim>\<open>MaxVarintLen64\<close> bytes, and when the tenth byte is larger than 1, with
  an overflow error of its own; \<open>x\<close> is the value accumulated so far, \<open>s\<close> the shift,
  \<open>i\<close> the number of bytes read.
\<close>

function ReadUvarint_loop ::
  "ByteBuffer \<Rightarrow> uint64 \<Rightarrow> nat \<Rightarrow> nat \<Rightarrow> (ByteBuffer \<times> uint64 \<times> error option) outcome"
where
  "ReadUvarint_loop r x s i =
     (if i < MaxVarintLen64 then
        (case ReadByte r of
           Panic \<Rightarrow> Panic
         | Ret (r', b, err) \<Rightarrow>
             (case err of
                Some e \<Rightarrow> Ret (r', x, Some e)
              | None \<Rightarrow>
                  if b < 0x80 then
                    (if i = MaxVarintLen64 - 1 \<and> b > 1 then Ret (r', x, Some ErrVarintOverflow)
                     else Ret (r', x OR push_bit s (ucast b), None))
                  else ReadUvarint_loop r' (x OR push_bit s (ucast (b AND 0x7f))) (s + 7) (i + 1)))
      else Ret (r, x, Some ErrVarintOverflow))"
  by pat_completeness auto
termination
  by (relation "measure (\<lambda>(r, x, s, i). MaxVarintLen64 - i)") auto

text \<open>
  Modelled from the spec: \<^verbatim>\<open>binary.ReadUvarint\<close>, the loop above from the value 0, the
  shift 0 and no byte read.
\<close>

definition ReadUvarint :: "ByteBuffer \<Rightarrow> (ByteBuffer \<times> uint64 \<times> error option) outcome" where
  "ReadUvarint r = ReadUvarint_loop r 0 0 0"

definition WriteUInt64Var :: "ByteBuffer \<Rightarrow> uint64 \<Rightarrow> (ByteBuffer \<times> int \<times> error option) outcome" where
  "WriteUInt64Var m x =
     and_then (PutUvarint (replicate MaxVarintLen64 0) x) (\<lambda>(buf, n).
     and_then (slice_to buf n) (\<lambda>s. Write m s))"

definition ReadUInt64Var :: "ByteBuffer \<Rightarrow> (ByteBuffer \<times> uint64 \<times> error option) outcome" where
  "ReadUInt64Var m = ReadUvarint m"

subsection \<open>Sequences of calls\<close>

text \<open>
  The loops of \<^verbatim>\<open>TestByteBufferUInt64Var\<close>: write the values one after the other,
  read a number of values back; both stop at the first error.
\<close>

fun write_vars :: "ByteBuffer \<Rightarrow> uint64 list \<Rightarrow> (ByteBuffer \<times> error option) outcome" where
  "write_vars m [] = Ret (m, None)"
| "write_vars m (v # vs) =
     (case WriteUInt64Var m v of
        Panic \<Rightarrow> Panic
      | Ret (m', n, err) \<Rightarrow>
          (case err of Some e \<Rightarrow> Ret (m', Some e) | None \<Rightarrow> write_vars m' vs))"

fun read_vars :: "ByteBuffer \<Rightarrow> nat \<Rightarrow> (ByteBuffer \<times> uint64 list \<times> error option) outcome" where
  "read_vars m 0 = Ret (m, [], None)"
| "read_vars m (Suc k) =
     (case ReadUInt64Var m of
        Panic \<Rightarrow> Panic
      | Ret (m', x, err) \<Rightarrow>
          (case err of
             Some e \<Rightarrow> Ret (m', [], Some e)
           | None \<Rightarrow>
               (case read_vars m' k of
                  Panic \<Rightarrow> Panic
                | Ret (m'', xs, err') \<Rightarrow> Ret (m'', x # xs, err'))))"

text \<open>The values of the test: \<open>v\<close> starts at 1 and doubles, 63 times.\<close>

definition powers_of_two :: "uint64 list" where
  "powers_of_two = map (\<lambda>k. 2 ^ k) [0..<63]"

subsection \<open>The invariant of the data model\<close>

definition invariant :: "ByteBuffer \<Rightarrow> bool" where
  "invariant m \<longleftrightarrow> 0 \<le> pos m \<and> pos m \<le> len (buff m)"

text \<open>
  The number of bytes of a write of \<open>p\<close> at \<open>ps\<close> that land inside the buffer, in the
  words of the specification: \<open>overlap = min (length storage - pos) (length src)\<close>.
\<close>

definition overlap :: "ByteBuffer \<Rightarrow> byte list \<Rightarrow> int \<Rightarrow> int" where
  "overlap m p ps = min (len (buff m) - ps) (len p)"

text \<open>
  A call returns, and the buffer it returns satisfies the invariant.
\<close>

definition returns_with_invariant :: "(ByteBuffer \<times> 'a) outcome \<Rightarrow> bool" where
  "returns_with_invariant r = (case r of Panic \<Rightarrow> False | Ret (m', x) \<Rightarrow> invariant m')"

text \<open>
  The bytes that \<^verbatim>\<open>PutUvarint\<close> stores for \<open>x\<close>, as a list: a function of the proofs,
  to say what a buffer holds after \<^verbatim>\<open>WriteUInt64Var\<close>.
\<close>

function uvarint :: "uint64 \<Rightarrow> byte list" where
  "uvarint x = (if x \<ge> 0x80 then (ucast x OR 0x80) # uvarint (drop_bit 7 x) else [ucast x])"
  by pat_completeness auto
termination
proof (relation "measure unat")
  show "wf (measure unat)" by simp
next
  fix x :: uint64
  assume "128 \<le> x"
  then have "128 \<le> unat x" by (simp add: word_le_nat_alt)
  then have "unat x div 128 < unat x" by simp
  then show "(drop_bit 7 x, x) \<in> measure unat"
    by (simp add: drop_bit_eq_div unat_div)
qed

section \<open>Arithmetic on 64 bits\<close>

lemma wrap64_id: "- (2 ^ 63) \<le> x \<Longrightarrow> x < 2 ^ 63 \<Longrightarrow> wrap64 x = x"
  unfolding wrap64_def by (simp add: mod_pos_pos_trivial)

lemma wrap64_range: "- (2 ^ 63) \<le> wrap64 x \<and> wrap64 x < 2 ^ 63"
proof -
  have "0 \<le> (x + 2 ^ 63) mod (2 ^ 64 :: int)" by simp
  moreover have "(x + 2 ^ 63) mod (2 ^ 64 :: int) < 2 ^ 64" by simp
  ultimately show ?thesis unfolding wrap64_def by simp
qed

lemma sint64_range: "- (2 ^ 63) \<le> sint (w :: int64) \<and> sint w < 2 ^ 63"
  using sint_range_size [of w] by (simp add: word_size)

lemma sint64_of_int: "sint (word_of_int x :: int64) = wrap64 x"
  by (simp add: wrap64_def int_word_sint)

section \<open>Seeking\<close>

lemma seek_target_range:
  assumes "seek_target m off w = Some t"
  shows "- (2 ^ 63) \<le> t \<and> t < 2 ^ 63"
  using assms wrap64_range sint64_range [of off]
  by (auto simp: seek_target_def Let_def split: if_splits)

lemma Seek_at_target:
  assumes t: "seek_target m off w = Some t"
  shows "(Seek m off w = (m, - 1, Some ErrSeekNegative)) = (t < 0)"
    and "(Seek m off w = (m, - 1, Some ErrSeekOverflow)) = (0 \<le> t \<and> len (buff m) \<le> t)"
    and "(Seek m off w = (m\<lparr>pos := t\<rparr>, word_of_int t, None)) = (0 \<le> t \<and> t < len (buff m))"
    and "sint (word_of_int t :: int64) = t"
proof -
  show "(Seek m off w = (m, - 1, Some ErrSeekNegative)) = (t < 0)"
    using t by (auto simp: Seek_def posOverflow_def)
  show "(Seek m off w = (m, - 1, Some ErrSeekOverflow)) = (0 \<le> t \<and> len (buff m) \<le> t)"
    using t by (auto simp: Seek_def posOverflow_def)
  show "(Seek m off w = (m\<lparr>pos := t\<rparr>, word_of_int t, None)) = (0 \<le> t \<and> t < len (buff m))"
    using t by (auto simp: Seek_def posOverflow_def)
  show "sint (word_of_int t :: int64) = t"
    using seek_target_range [OF t] by (simp add: sint64_of_int wrap64_id)
qed

lemma seek_target_whence:
  "seek_target m off SeekStart = Some (sint off)"
  "seek_target m off SeekCurrent = Some (wrap64 (sint off + pos m))"
  "seek_target m off SeekEnd = Some (wrap64 (sint off + len (buff m)))"
  "w \<noteq> SeekStart \<and> w \<noteq> SeekCurrent \<and> w \<noteq> SeekEnd \<Longrightarrow> seek_target m off w = None"
  by (simp_all add: seek_target_def SeekStart_def SeekCurrent_def SeekEnd_def)

lemma wrap64_high:
  assumes "2 ^ 63 \<le> x" "x < 2 ^ 64"
  shows "wrap64 x < 0"
proof -
  define y where "y = x - 2 ^ 63"
  have y: "0 \<le> y" "y < 2 ^ 63" using assms by (simp_all add: y_def)
  have "x + 2 ^ 63 = y + 2 ^ 64" by (simp add: y_def)
  then have "(x + 2 ^ 63) mod 2 ^ 64 = y mod 2 ^ 64" by simp
  also have "\<dots> = y" using y by (simp add: mod_pos_pos_trivial)
  finally show ?thesis using y by (simp add: wrap64_def)
qed


text \<open>
  C4, as amended. The three valid values of whence are \<^verbatim>\<open>io.SeekStart\<close>,
  \<^verbatim>\<open>io.SeekCurrent\<close> and \<^verbatim>\<open>io.SeekEnd\<close>; any other value fails with
  \<^verbatim>\<open>ErrWhenceUnknown\<close>. The target is \<open>offset\<close>, \<open>pos + offset\<close> or \<open>len buff + offset\<close>,
  the sums computed in 64-bit signed arithmetic (\<open>wrap64\<close>), which is the exact sum
  whenever that fits in 64 bits. With this target \<open>t\<close>, \<^verbatim>\<open>Seek\<close> fails with
  \<^verbatim>\<open>ErrSeekNegative\<close> exactly when \<open>t < 0\<close>, fails with \<^verbatim>\<open>ErrSeekOverflow\<close> exactly
  when \<open>0 \<le> t\<close> and \<open>len buff \<le> t\<close>, and succeeds, setting the position to \<open>t\<close> and
  returning \<open>t\<close>, exactly when \<open>0 \<le> t < len buff\<close>; a failing \<^verbatim>\<open>Seek\<close> returns the
  buffer it was given. A sum of \<open>2 ^ 63\<close> or more wraps to a negative target and is
  reported as \<^verbatim>\<open>ErrSeekNegative\<close>. On an empty buffer every \<^verbatim>\<open>Seek\<close> fails,
  \<^verbatim>\<open>Seek(0, io.SeekStart)\<close> with \<^verbatim>\<open>ErrSeekOverflow\<close>.
\<close>

theorem Seek_bounds:
  "(let t = sint off in
      (Seek m off SeekStart = (m, - 1, Some ErrSeekNegative)) = (t < 0) \<and>
      (Seek m off SeekStart = (m, - 1, Some ErrSeekOverflow)) = (0 \<le> t \<and> len (buff m) \<le> t) \<and>
      (Seek m off SeekStart = (m\<lparr>pos := t\<rparr>, word_of_int t, None)) = (0 \<le> t \<and> t < len (buff m)) \<and>
      sint (word_of_int t :: int64) = t) \<and>
   (let t = wrap64 (sint off + pos m) in
      (Seek m off SeekCurrent = (m, - 1, Some ErrSeekNegative)) = (t < 0) \<and>
      (Seek m off SeekCurrent = (m, - 1, Some ErrSeekOverflow)) = (0 \<le> t \<and> len (buff m) \<le> t) \<and>
      (Seek m off SeekCurrent = (m\<lparr>pos := t\<rparr>, word_of_int t, None)) = (0 \<le> t \<and> t < len (buff m)) \<and>
      sint (word_of_int t :: int64) = t) \<and>
   (let t = wrap64 (sint off + len (buff m)) in
      (Seek m off SeekEnd = (m, - 1, Some ErrSeekNegative)) = (t < 0) \<and>
      (Seek m off SeekEnd = (m, - 1, Some ErrSeekOverflow)) = (0 \<le> t \<and> len (buff m) \<le> t) \<and>
      (Seek m off SeekEnd = (m\<lparr>pos := t\<rparr>, word_of_int t, None)) = (0 \<le> t \<and> t < len (buff m)) \<and>
      sint (word_of_int t :: int64) = t) \<and>
   (w \<noteq> SeekStart \<and> w \<noteq> SeekCurrent \<and> w \<noteq> SeekEnd \<longrightarrow>
      Seek m off w = (m, - 1, Some ErrWhenceUnknown)) \<and>
   (- (2 ^ 63) \<le> sint off + pos m \<and> sint off + pos m < 2 ^ 63 \<longrightarrow>
      wrap64 (sint off + pos m) = sint off + pos m) \<and>
   (- (2 ^ 63) \<le> sint off + len (buff m) \<and> sint off + len (buff m) < 2 ^ 63 \<longrightarrow>
      wrap64 (sint off + len (buff m)) = sint off + len (buff m)) \<and>
   (pos m \<le> MaxInt \<and> 2 ^ 63 \<le> sint off + pos m \<longrightarrow>
      Seek m off SeekCurrent = (m, - 1, Some ErrSeekNegative)) \<and>
   (len (buff m) \<le> MaxInt \<and> 2 ^ 63 \<le> sint off + len (buff m) \<longrightarrow>
      Seek m off SeekEnd = (m, - 1, Some ErrSeekNegative)) \<and>
   (buff m = [] \<longrightarrow>
      snd (snd (Seek m off w)) \<noteq> None \<and> Seek m 0 SeekStart = (m, - 1, Some ErrSeekOverflow))"
proof (intro conjI impI)
  show "let t = sint off in
      (Seek m off SeekStart = (m, - 1, Some ErrSeekNegative)) = (t < 0) \<and>
      (Seek m off SeekStart = (m, - 1, Some ErrSeekOverflow)) = (0 \<le> t \<and> len (buff m) \<le> t) \<and>
      (Seek m off SeekStart = (m\<lparr>pos := t\<rparr>, word_of_int t, None)) = (0 \<le> t \<and> t < len (buff m)) \<and>
      sint (word_of_int t :: int64) = t"
    unfolding Let_def using Seek_at_target [OF seek_target_whence(1)] by blast
  show "let t = wrap64 (sint off + pos m) in
      (Seek m off SeekCurrent = (m, - 1, Some ErrSeekNegative)) = (t < 0) \<and>
      (Seek m off SeekCurrent = (m, - 1, Some ErrSeekOverflow)) = (0 \<le> t \<and> len (buff m) \<le> t) \<and>
      (Seek m off SeekCurrent = (m\<lparr>pos := t\<rparr>, word_of_int t, None)) = (0 \<le> t \<and> t < len (buff m)) \<and>
      sint (word_of_int t :: int64) = t"
    unfolding Let_def using Seek_at_target [OF seek_target_whence(2)] by blast
  show "let t = wrap64 (sint off + len (buff m)) in
      (Seek m off SeekEnd = (m, - 1, Some ErrSeekNegative)) = (t < 0) \<and>
      (Seek m off SeekEnd = (m, - 1, Some ErrSeekOverflow)) = (0 \<le> t \<and> len (buff m) \<le> t) \<and>
      (Seek m off SeekEnd = (m\<lparr>pos := t\<rparr>, word_of_int t, None)) = (0 \<le> t \<and> t < len (buff m)) \<and>
      sint (word_of_int t :: int64) = t"
    unfolding Let_def using Seek_at_target [OF seek_target_whence(3)] by blast
next
  assume "w \<noteq> SeekStart \<and> w \<noteq> SeekCurrent \<and> w \<noteq> SeekEnd"
  then show "Seek m off w = (m, - 1, Some ErrWhenceUnknown)"
    by (simp add: Seek_def seek_target_whence(4))
next
  assume "- (2 ^ 63) \<le> sint off + pos m \<and> sint off + pos m < 2 ^ 63"
  then show "wrap64 (sint off + pos m) = sint off + pos m" by (simp add: wrap64_id)
next
  assume "- (2 ^ 63) \<le> sint off + len (buff m) \<and> sint off + len (buff m) < 2 ^ 63"
  then show "wrap64 (sint off + len (buff m)) = sint off + len (buff m)" by (simp add: wrap64_id)
next
  assume a: "pos m \<le> MaxInt \<and> 2 ^ 63 \<le> sint off + pos m"
  have "sint off + pos m < 2 ^ 64" using a sint64_range [of off] by (simp add: MaxInt_def)
  then have "wrap64 (sint off + pos m) < 0" using a by (intro wrap64_high) simp_all
  then show "Seek m off SeekCurrent = (m, - 1, Some ErrSeekNegative)"
    using Seek_at_target(1) [OF seek_target_whence(2)] by blast
next
  assume a: "len (buff m) \<le> MaxInt \<and> 2 ^ 63 \<le> sint off + len (buff m)"
  have "sint off + len (buff m) < 2 ^ 64" using a sint64_range [of off] by (simp add: MaxInt_def)
  then have "wrap64 (sint off + len (buff m)) < 0" using a by (intro wrap64_high) simp_all
  then show "Seek m off SeekEnd = (m, - 1, Some ErrSeekNegative)"
    using Seek_at_target(1) [OF seek_target_whence(3)] by blast
next
  assume e: "buff m = []"
  show "snd (snd (Seek m off w)) \<noteq> None"
    using e by (simp add: Seek_def posOverflow_def len_def split: option.split)
  show "Seek m 0 SeekStart = (m, - 1, Some ErrSeekOverflow)"
    using e by (simp add: Seek_def posOverflow_def len_def seek_target_def)
qed

text \<open>
  C4 as stated fails: at position 1 of a two-byte buffer,
  \<^verbatim>\<open>Seek(math.MaxInt64, io.SeekCurrent)\<close> has the target \<open>pos + offset = 2 ^ 63\<close>, which is
  not negative and not below the length, and the error is \<^verbatim>\<open>ErrSeekNegative\<close>, not
  \<^verbatim>\<open>ErrSeekOverflow\<close>.
\<close>

theorem Seek_bounds_counterexample:
  "Seek \<lparr>buff = [1, 2], pos = 1\<rparr> 9223372036854775807 SeekCurrent =
     (\<lparr>buff = [1, 2], pos = 1\<rparr>, - 1, Some ErrSeekNegative) \<and>
   0 \<le> pos \<lparr>buff = [1, 2 :: byte], pos = 1\<rparr> + sint (9223372036854775807 :: int64) \<and>
   len (buff \<lparr>buff = [1, 2 :: byte], pos = 1\<rparr>)
     \<le> pos \<lparr>buff = [1, 2 :: byte], pos = 1\<rparr> + sint (9223372036854775807 :: int64)"
  by (simp add: Seek_def seek_target_def SeekStart_def SeekCurrent_def wrap64_def len_def)


theorem Seek_bounds_witness:
  "Seek \<lparr>buff = [1, 2, 3], pos = 1\<rparr> 2 SeekStart = (\<lparr>buff = [1, 2, 3], pos = 2\<rparr>, 2, None) \<and>
   Seek \<lparr>buff = [1, 2, 3], pos = 1\<rparr> (- 1) SeekStart =
     (\<lparr>buff = [1, 2, 3], pos = 1\<rparr>, - 1, Some ErrSeekNegative) \<and>
   Seek \<lparr>buff = [1, 2, 3], pos = 1\<rparr> 2 SeekCurrent =
     (\<lparr>buff = [1, 2, 3], pos = 1\<rparr>, - 1, Some ErrSeekOverflow) \<and>
   Seek \<lparr>buff = [1, 2, 3], pos = 1\<rparr> 1 SeekEnd =
     (\<lparr>buff = [1, 2, 3], pos = 1\<rparr>, - 1, Some ErrSeekOverflow) \<and>
   Seek \<lparr>buff = [1, 2, 3], pos = 1\<rparr> (- 1) SeekEnd = (\<lparr>buff = [1, 2, 3], pos = 2\<rparr>, 2, None) \<and>
   Seek \<lparr>buff = [1, 2, 3], pos = 1\<rparr> 0 7 =
     (\<lparr>buff = [1, 2, 3], pos = 1\<rparr>, - 1, Some ErrWhenceUnknown) \<and>
   Seek \<lparr>buff = [1, 2, 3], pos = 1\<rparr> 9223372036854775807 SeekCurrent =
     (\<lparr>buff = [1, 2, 3], pos = 1\<rparr>, - 1, Some ErrSeekNegative) \<and>
   Seek \<lparr>buff = [1, 2, 3], pos = 1\<rparr> 9223372036854775807 SeekEnd =
     (\<lparr>buff = [1, 2, 3], pos = 1\<rparr>, - 1, Some ErrSeekNegative) \<and>
   Seek \<lparr>buff = [], pos = 0\<rparr> 0 SeekStart = (\<lparr>buff = [], pos = 0\<rparr>, - 1, Some ErrSeekOverflow)"
proof -
  let ?m = "\<lparr>buff = [1, 2, 3 :: byte], pos = 1\<rparr>"
  let ?big = "9223372036854775807 :: int64"
  note c1 = conjunct1
  note c2 = conjunct2
  note s2 = Seek_bounds [where m = ?m and off = 2 and w = 0]
  note s1 = Seek_bounds [where m = ?m and off = 1 and w = 0]
  note sm = Seek_bounds [where m = ?m and off = "- 1" and w = 0]
  note s7 = Seek_bounds [where m = ?m and off = 0 and w = 7]
  note sb = Seek_bounds [where m = ?m and off = ?big and w = 0]
  note se = Seek_bounds [where m = "\<lparr>buff = [], pos = 0\<rparr>" and off = 0 and w = 0]
  have a1: "Seek ?m 2 SeekStart = (\<lparr>buff = [1, 2, 3], pos = 2\<rparr>, 2, None)"
    using s2 [THEN c1, unfolded Let_def, THEN c2, THEN c2, THEN c1]
    by (simp add: len_def)
  have a2: "Seek ?m (- 1) SeekStart = (?m, - 1, Some ErrSeekNegative)"
    using sm [THEN c1, unfolded Let_def, THEN c1] by simp
  have w3: "wrap64 (sint (2 :: int64) + pos ?m) = 3"
    using s2 [THEN c2, THEN c2, THEN c2, THEN c2, THEN c1] by simp
  have a3: "Seek ?m 2 SeekCurrent = (?m, - 1, Some ErrSeekOverflow)"
    using s2 [THEN c2, THEN c1, unfolded Let_def w3, THEN c2, THEN c1]
    by (simp add: len_def)
  have w4: "wrap64 (sint (1 :: int64) + len (buff ?m)) = 4"
    using s1 [THEN c2, THEN c2, THEN c2, THEN c2, THEN c2, THEN c1] by (simp add: len_def)
  have a4: "Seek ?m 1 SeekEnd = (?m, - 1, Some ErrSeekOverflow)"
    using s1 [THEN c2, THEN c2, THEN c1, unfolded Let_def w4, THEN c2, THEN c1]
    by (simp add: len_def)
  have w5: "wrap64 (sint (- 1 :: int64) + len (buff ?m)) = 2"
    using sm [THEN c2, THEN c2, THEN c2, THEN c2, THEN c2, THEN c1] by (simp add: len_def)
  have a5: "Seek ?m (- 1) SeekEnd = (\<lparr>buff = [1, 2, 3], pos = 2\<rparr>, 2, None)"
    using sm [THEN c2, THEN c2, THEN c1, unfolded Let_def w5, THEN c2, THEN c2, THEN c1]
    by (simp add: len_def)
  have a6: "Seek ?m 0 7 = (?m, - 1, Some ErrWhenceUnknown)"
    using s7 [THEN c2, THEN c2, THEN c2, THEN c1]
    by (simp add: SeekStart_def SeekCurrent_def SeekEnd_def)
  have a7: "Seek ?m ?big SeekCurrent = (?m, - 1, Some ErrSeekNegative)"
    using sb [THEN c2, THEN c2, THEN c2, THEN c2, THEN c2, THEN c2, THEN c1]
    by (simp add: MaxInt_def)
  have a8: "Seek ?m ?big SeekEnd = (?m, - 1, Some ErrSeekNegative)"
    using sb [THEN c2, THEN c2, THEN c2, THEN c2, THEN c2, THEN c2, THEN c2, THEN c1]
    by (simp add: MaxInt_def len_def)
  have a9: "Seek \<lparr>buff = [], pos = 0\<rparr> 0 SeekStart = (\<lparr>buff = [], pos = 0\<rparr>, - 1, Some ErrSeekOverflow)"
    using se [THEN c2, THEN c2, THEN c2, THEN c2, THEN c2, THEN c2, THEN c2, THEN c2] by simp
  show ?thesis using a1 a2 a3 a4 a5 a6 a7 a8 a9 by blast
qed

section \<open>Single bytes and positional reads\<close>

text \<open>
  C9. \<^verbatim>\<open>WriteByte\<close> puts the byte after the last byte of the buffer, whatever the
  position was: the old bytes stay, the buffer is one byte longer, the position is the
  new length, and the error returned is \<^verbatim>\<open>nil\<close>.
\<close>

theorem WriteByte_appends:
  "WriteByte m c = (m\<lparr>buff := buff m @ [c], pos := len (buff m) + 1\<rparr>, None) \<and>
   pos (fst (WriteByte m c)) = len (buff (fst (WriteByte m c))) \<and>
   take (length (buff m)) (buff (fst (WriteByte m c))) = buff m \<and>
   length (buff (fst (WriteByte m c))) = length (buff m) + 1 \<and>
   last (buff (fst (WriteByte m c))) = c \<and>
   snd (WriteByte m c) = None"
  by (simp add: WriteByte_def len_def Let_def)

lemma ReadAt_frame: "\<exists>p' n err. ReadAt m p off = Ret (m, p', n, err)"
  by (auto simp: ReadAt_def readFromPos_def Let_def and_then_def slice_from_def posOverflow_def)

text \<open>
  C7. \<^verbatim>\<open>ReadAt\<close> and \<^verbatim>\<open>ByteAt\<close> always return, and the buffer they leave is the buffer
  they were given, position and bytes, whatever the count and the error are.
\<close>

theorem ReadAt_ByteAt_frame:
  "(\<exists>p' n err. ReadAt m p off = Ret (m, p', n, err)) \<and> (\<exists>b err. ByteAt m i = Ret (m, b, err))"
proof
  show "\<exists>p' n err. ReadAt m p off = Ret (m, p', n, err)" by (rule ReadAt_frame)
  obtain p' n err where "ReadAt m (replicate 1 0) (word_of_int i) = Ret (m, p', n, err)"
    using ReadAt_frame by blast
  then show "\<exists>b err. ByteAt m i = Ret (m, b, err)"
    by (simp add: ByteAt_def and_then_def split: option.split)
qed

section \<open>Writing\<close>

lemma writeFromPos_returns:
  assumes ps: "0 \<le> ps" "ps \<le> len (buff m)" and fit: "len (buff m) + len p \<le> MaxInt"
  shows "writeFromPos m p ps =
           Ret (m\<lparr>buff := take (nat ps) (buff m) @ take (nat (overlap m p ps)) p @
                          drop (nat (ps + overlap m p ps)) (buff m) @
                          drop (nat (overlap m p ps)) p\<rparr>,
                len p - overlap m p ps, len p, None)"
proof -
  let ?ov = "overlap m p ps"
  have l0: "0 \<le> len p" "0 \<le> len (buff m)" by (simp_all add: len_def)
  have w1: "wrap64 (len (buff m) - ps) = len (buff m) - ps"
    using ps fit l0 by (intro wrap64_id) (simp_all add: MaxInt_def)
  have ov: "(if len (buff m) - ps > len p then len p else len (buff m) - ps) = ?ov"
    by (simp add: overlap_def min_def)
  have ovr: "0 \<le> ?ov" "?ov \<le> len p" "?ov \<le> len (buff m) - ps"
    using ps l0 by (simp_all add: overlap_def)
  have w2: "wrap64 (len p - ?ov) = len p - ?ov"
    using ovr fit l0 by (intro wrap64_id) (simp_all add: MaxInt_def)
  have sf: "slice_from (buff m) ps = Ret (drop (nat ps) (buff m))"
    using ps by (simp add: slice_from_def)
  have st: "slice_to p ?ov = Ret (take (nat ?ov) p)"
    using ovr by (simp add: slice_to_def)
  have sp: "slice_from p ?ov = Ret (drop (nat ?ov) p)"
    using ovr by (simp add: slice_from_def)
  have cp: "copy (drop (nat ps) (buff m)) (take (nat ?ov) p) =
              take (nat ?ov) p @ drop (nat (ps + ?ov)) (buff m)"
  proof -
    have "nat ?ov \<le> length p" "nat ?ov \<le> length (buff m) - nat ps"
      using ovr ps by (simp_all add: len_def)
    moreover have "nat ?ov + nat ps = nat (ps + ?ov)" using ovr ps by simp
    ultimately show ?thesis by (simp add: copy_def min_def add.commute)
  qed
  show ?thesis
  proof (cases "?ov > 0")
    case True
    show ?thesis
    proof (cases "len p - ?ov > 0")
      case True
      with \<open>?ov > 0\<close> show ?thesis
        unfolding writeFromPos_def Let_def w1 ov w2
        by (simp add: and_then_def sf st sp cp)
    next
      case False
      then have tp: "take (nat ?ov) p = p" "drop (nat ?ov) p = []"
        using ovr by (simp_all add: len_def)
      with False \<open>?ov > 0\<close> show ?thesis
        unfolding writeFromPos_def Let_def w1 ov w2
        by (simp add: and_then_def sf st sp cp [unfolded tp])
    qed
  next
    case False
    then have z: "?ov = 0" using ovr by simp
    show ?thesis
    proof (cases "len p > 0")
      case True
      then have "len (buff m) - ps = 0" using z by (simp add: overlap_def min_def split: if_splits)
      then have "nat ps = length (buff m)" using ps by (simp add: len_def)
      with True z show ?thesis
        unfolding writeFromPos_def Let_def w1 ov w2
        by (simp add: and_then_def slice_from_def len_def)
    next
      case False
      then have "p = []" using l0 by (simp add: len_def)
      with False z show ?thesis
        unfolding writeFromPos_def Let_def w1 ov w2
        by (simp add: and_then_def len_def)
    qed
  qed
qed


lemma writeFromPos_nil:
  "writeFromPos m p ps = Ret (m', a, w, e) \<Longrightarrow> e = None \<and> w = len p"
  by (auto simp: writeFromPos_def Let_def and_then_def split: if_splits outcome.splits)


lemma Write_returns:
  assumes "invariant m" "len (buff m) + len p \<le> MaxInt"
  shows "Write m p =
        Ret (m\<lparr>buff := take (nat (pos m)) (buff m) @ take (nat (overlap m p (pos m))) p @
                       drop (nat (pos m + overlap m p (pos m))) (buff m) @
                       drop (nat (overlap m p (pos m))) p,
               pos := pos m + (len p - overlap m p (pos m))\<rparr>,
             len p, None)"
proof -
  let ?ov = "overlap m p (pos m)"
  have ps: "0 \<le> pos m" "pos m \<le> len (buff m)" using assms by (simp_all add: invariant_def)
  have l0: "0 \<le> len p" by (simp add: len_def)
  have ovr: "0 \<le> ?ov" "?ov \<le> len p" using ps l0 by (simp_all add: overlap_def)
  have w: "wrap64 (pos m + (len p - ?ov)) = pos m + (len p - ?ov)"
    using ps ovr assms by (intro wrap64_id) (simp_all add: MaxInt_def)
  show ?thesis
    using assms by (simp add: Write_def writeFromPos_returns [OF ps] and_then_def w)
qed

text \<open>
  C3. On a buffer that satisfies the invariant (and whose length plus the length of
  \<open>p\<close> fits Go's \<^verbatim>\<open>int\<close>), \<^verbatim>\<open>Write\<close> overwrites \<open>overlap = min (len buff - pos) (len p)\<close>
  bytes in place at the position, appends the other \<open>len p - overlap\<close> bytes at the end,
  moves the position by the appended amount only, and returns \<open>len p\<close> with a
  \<^verbatim>\<open>nil\<close> error. Whenever \<^verbatim>\<open>Write\<close> returns, the error is \<^verbatim>\<open>nil\<close> and the count is
  \<open>len p\<close>. On \<open>''abcdef''\<close> at position 3, writing \<open>''abcdef''\<close> gives
  \<open>''abcabcdef''\<close> and position 6.
\<close>

theorem Write_overlap_append:
  "(invariant m \<and> len (buff m) + len p \<le> MaxInt \<longrightarrow>
      Write m p =
        Ret (m\<lparr>buff := take (nat (pos m)) (buff m) @ take (nat (overlap m p (pos m))) p @
                       drop (nat (pos m + overlap m p (pos m))) (buff m) @
                       drop (nat (overlap m p (pos m))) p,
               pos := pos m + (len p - overlap m p (pos m))\<rparr>,
             len p, None)) \<and>
   (\<forall>m' n err. Write m p = Ret (m', n, err) \<longrightarrow> err = None \<and> n = len p) \<and>
   Write \<lparr>buff = map of_char ''abcdef'', pos = 3\<rparr> (map of_char ''abcdef'') =
     Ret (\<lparr>buff = map of_char ''abcabcdef'', pos = 6\<rparr>, 6, None)"
proof (intro conjI allI impI)
  assume "invariant m \<and> len (buff m) + len p \<le> MaxInt"
  then show "Write m p =
        Ret (m\<lparr>buff := take (nat (pos m)) (buff m) @ take (nat (overlap m p (pos m))) p @
                       drop (nat (pos m + overlap m p (pos m))) (buff m) @
                       drop (nat (overlap m p (pos m))) p,
               pos := pos m + (len p - overlap m p (pos m))\<rparr>,
             len p, None)"
    by (simp add: Write_returns)
next
  fix m' n err assume r: "Write m p = Ret (m', n, err)"
  then show "err = None" "n = len p"
    by (auto simp: Write_def and_then_def split: outcome.splits option.splits
             dest: writeFromPos_nil)
next
  show "Write \<lparr>buff = map of_char ''abcdef'', pos = 3\<rparr> (map of_char ''abcdef'') =
     Ret (\<lparr>buff = map of_char ''abcabcdef'', pos = 6\<rparr>, 6, None)"
    by (simp add: Write_def writeFromPos_def and_then_def slice_from_def slice_to_def
          copy_def len_def wrap64_def)
qed



theorem Write_overlap_append_witness:
  "invariant \<lparr>buff = [1, 2, 3], pos = 2\<rparr> \<and>
   len (buff \<lparr>buff = [1, 2, 3], pos = 2\<rparr>) + len [7, 8, 9 :: byte] \<le> MaxInt \<and>
   Write \<lparr>buff = [1, 2, 3], pos = 2\<rparr> [7, 8, 9] = Ret (\<lparr>buff = [1, 2, 7, 8, 9], pos = 4\<rparr>, 3, None) \<and>
   3 = len [7, 8, 9 :: byte]"
proof -
  have i: "invariant \<lparr>buff = [1, 2, 3], pos = 2\<rparr> \<and>
   len (buff \<lparr>buff = [1, 2, 3], pos = 2\<rparr>) + len [7, 8, 9 :: byte] \<le> MaxInt"
    by (simp add: invariant_def len_def MaxInt_def)
  have o: "overlap \<lparr>buff = [1, 2, 3], pos = 2\<rparr> [7, 8, 9] 2 = 1"
    by (simp add: overlap_def len_def)
  note t = Write_overlap_append [of "\<lparr>buff = [1, 2, 3], pos = 2\<rparr>" "[7, 8, 9]"]
  have w: "Write \<lparr>buff = [1, 2, 3], pos = 2\<rparr> [7, 8, 9] =
             Ret (\<lparr>buff = [1, 2, 7, 8, 9], pos = 4\<rparr>, 3, None)"
    using t [THEN conjunct1, THEN mp, OF i] by (simp add: o len_def)
  have "None = (None :: error option) \<and> 3 = len [7, 8, 9 :: byte]"
    by (rule t [THEN conjunct2, THEN conjunct1, rule_format, OF w])
  with i w show ?thesis by blast
qed

text \<open>
  What \<^verbatim>\<open>WriteAt\<close> does for \<open>0 \<le> off < len buff\<close>: the write of \<^verbatim>\<open>writeFromPos\<close> at
  \<open>off\<close>, then \<open>appended\<close> added to the position the buffer had before the call.
\<close>

lemma WriteAt_returns:
  "0 \<le> sint off \<and> sint off < len (buff m) \<and> len (buff m) + len p \<le> MaxInt \<longrightarrow>
     writeFromPos m p (sint off) =
       Ret (m\<lparr>buff := take (nat (sint off)) (buff m) @ take (nat (overlap m p (sint off))) p @
                      drop (nat (sint off + overlap m p (sint off))) (buff m) @
                      drop (nat (overlap m p (sint off))) p\<rparr>,
            len p - overlap m p (sint off), len p, None) \<and>
     WriteAt m p off =
       Ret (m\<lparr>buff := take (nat (sint off)) (buff m) @ take (nat (overlap m p (sint off))) p @
                      drop (nat (sint off + overlap m p (sint off))) (buff m) @
                      drop (nat (overlap m p (sint off))) p,
              pos := wrap64 (pos m + (len p - overlap m p (sint off)))\<rparr>,
            len p, None) \<and>
     (invariant m \<longrightarrow>
        wrap64 (pos m + (len p - overlap m p (sint off))) =
          pos m + (len p - overlap m p (sint off)))"
proof (intro conjI impI)
  assume a: "0 \<le> sint off \<and> sint off < len (buff m) \<and> len (buff m) + len p \<le> MaxInt"
  let ?ov = "overlap m p (sint off)"
  have ps: "0 \<le> sint off" "sint off \<le> len (buff m)" using a by simp_all
  have fit: "len (buff m) + len p \<le> MaxInt" using a by simp
  show wf: "writeFromPos m p (sint off) =
       Ret (m\<lparr>buff := take (nat (sint off)) (buff m) @ take (nat ?ov) p @
                      drop (nat (sint off + ?ov)) (buff m) @ drop (nat ?ov) p\<rparr>,
            len p - ?ov, len p, None)"
    by (rule writeFromPos_returns [OF ps fit])
  show "WriteAt m p off =
       Ret (m\<lparr>buff := take (nat (sint off)) (buff m) @ take (nat ?ov) p @
                      drop (nat (sint off + ?ov)) (buff m) @ drop (nat ?ov) p,
              pos := wrap64 (pos m + (len p - ?ov))\<rparr>,
            len p, None)"
    using a by (simp add: WriteAt_def posOverflow_def wf and_then_def)
  assume i: "invariant m"
  have l0: "0 \<le> len p" by (simp add: len_def)
  have ovr: "0 \<le> ?ov" "?ov \<le> len p" using ps l0 a by (simp_all add: overlap_def)
  show "wrap64 (pos m + (len p - ?ov)) = pos m + (len p - ?ov)"
    using i ovr fit by (intro wrap64_id) (simp_all add: MaxInt_def invariant_def)
qed


section \<open>Reading\<close>

lemma readFromPos_avail:
  assumes ps: "0 \<le> ps" "ps < len (buff m)" and fit: "len (buff m) \<le> MaxInt"
  shows "readFromPos m p ps inc =
           Ret (if inc then m\<lparr>pos := wrap64 (pos m + min (len (buff m) - ps) (len p))\<rparr> else m,
                take (nat (min (len (buff m) - ps) (len p))) (drop (nat ps) (buff m)) @
                  drop (nat (min (len (buff m) - ps) (len p))) p,
                min (len (buff m) - ps) (len p),
                if min (len (buff m) - ps) (len p) < len p then Some EOF else None)"
proof -
  let ?n = "min (len (buff m) - ps) (len p)"
  have w1: "wrap64 (len (buff m) - ps) = len (buff m) - ps"
    using ps fit by (intro wrap64_id) (simp_all add: MaxInt_def)
  have mi: "min_int (len (buff m) - ps) (len p) = ?n"
    by (simp add: min_int_def min_def)
  have sf: "slice_from (buff m) ps = Ret (drop (nat ps) (buff m))"
    using ps by (simp add: slice_from_def)
  have cp: "copy p (drop (nat ps) (buff m)) =
              take (nat ?n) (drop (nat ps) (buff m)) @ drop (nat ?n) p"
  proof (cases "len (buff m) - ps < len p")
    case True
    then have "nat ?n = length (buff m) - nat ps" "length (buff m) - nat ps \<le> length p"
      using ps by (simp_all add: len_def min_def)
    then show ?thesis by (simp add: copy_def min_def)
  next
    case False
    then have "nat ?n = length p" "length p \<le> length (buff m) - nat ps"
      using ps by (simp_all add: len_def min_def)
    then show ?thesis by (simp add: copy_def min_def)
  qed
  show ?thesis
    unfolding readFromPos_def Let_def w1 mi
    using ps by (simp add: and_then_def sf cp)
qed

lemma readFromPos_past:
  assumes "len (buff m) \<le> ps" "ps \<le> MaxInt"
  shows "readFromPos m p ps inc = Ret (m, p, - 1, Some EOF)"
proof -
  have "0 \<le> len (buff m)" by (simp add: len_def)
  then have "wrap64 (len (buff m) - ps) = len (buff m) - ps"
    using assms by (intro wrap64_id) (simp_all add: MaxInt_def)
  then show ?thesis using assms by (simp add: readFromPos_def Let_def)
qed


text \<open>
  C2, as amended. A read (\<^verbatim>\<open>readFromPos\<close>, and \<^verbatim>\<open>Read\<close> at the position) from a
  place inside the buffer with fewer bytes left than the destination holds copies
  exactly the bytes left to the front of the destination and returns their number
  together with \<^verbatim>\<open>io.EOF\<close>. A read from a place at or past the length leaves the
  destination as it was and returns the count \<open>- 1\<close>, not 0, together with \<^verbatim>\<open>io.EOF\<close>.
\<close>

theorem read_past_end:
  "(0 \<le> ps \<and> ps < len (buff m) \<and> len (buff m) \<le> MaxInt \<and> len (buff m) - ps < len p \<longrightarrow>
      readFromPos m p ps inc =
        Ret (if inc then m\<lparr>pos := wrap64 (pos m + (len (buff m) - ps))\<rparr> else m,
             drop (nat ps) (buff m) @ drop (nat (len (buff m) - ps)) p,
             len (buff m) - ps, Some EOF)) \<and>
   (len (buff m) \<le> ps \<and> ps \<le> MaxInt \<longrightarrow>
      readFromPos m p ps inc = Ret (m, p, - 1, Some EOF)) \<and>
   (0 \<le> pos m \<and> pos m < len (buff m) \<and> len (buff m) \<le> MaxInt \<and>
    len (buff m) - pos m < len p \<longrightarrow>
      Read m p =
        Ret (m\<lparr>pos := len (buff m)\<rparr>,
             drop (nat (pos m)) (buff m) @ drop (nat (len (buff m) - pos m)) p,
             len (buff m) - pos m, Some EOF)) \<and>
   (len (buff m) \<le> pos m \<and> pos m \<le> MaxInt \<longrightarrow> Read m p = Ret (m, p, - 1, Some EOF))"
proof (intro conjI impI)
  assume a: "0 \<le> ps \<and> ps < len (buff m) \<and> len (buff m) \<le> MaxInt \<and> len (buff m) - ps < len p"
  then have n: "min (len (buff m) - ps) (len p) = len (buff m) - ps" by simp
  have "nat (len (buff m) - ps) = length (buff m) - nat ps" using a by (auto simp: len_def)
  then have t: "take (nat (len (buff m) - ps)) (drop (nat ps) (buff m)) = drop (nat ps) (buff m)"
    by simp
  show "readFromPos m p ps inc =
        Ret (if inc then m\<lparr>pos := wrap64 (pos m + (len (buff m) - ps))\<rparr> else m,
             drop (nat ps) (buff m) @ drop (nat (len (buff m) - ps)) p,
             len (buff m) - ps, Some EOF)"
    using a readFromPos_avail [of ps m p inc] by (simp only: n t) simp
next
  assume "len (buff m) \<le> ps \<and> ps \<le> MaxInt"
  then show "readFromPos m p ps inc = Ret (m, p, - 1, Some EOF)"
    by (simp add: readFromPos_past)
next
  assume a: "0 \<le> pos m \<and> pos m < len (buff m) \<and> len (buff m) \<le> MaxInt \<and>
    len (buff m) - pos m < len p"
  then have n: "min (len (buff m) - pos m) (len p) = len (buff m) - pos m" by simp
  have "nat (len (buff m) - pos m) = length (buff m) - nat (pos m)" using a by (auto simp: len_def)
  then have t: "take (nat (len (buff m) - pos m)) (drop (nat (pos m)) (buff m)) =
                  drop (nat (pos m)) (buff m)"
    by simp
  have w: "wrap64 (len (buff m)) = len (buff m)"
    using a by (intro wrap64_id) (simp_all add: MaxInt_def)
  show "Read m p =
        Ret (m\<lparr>pos := len (buff m)\<rparr>,
             drop (nat (pos m)) (buff m) @ drop (nat (len (buff m) - pos m)) p,
             len (buff m) - pos m, Some EOF)"
    unfolding Read_def
    using a readFromPos_avail [of "pos m" m p True] by (simp only: n t) (simp add: w)
next
  assume "len (buff m) \<le> pos m \<and> pos m \<le> MaxInt"
  then show "Read m p = Ret (m, p, - 1, Some EOF)"
    by (simp add: Read_def readFromPos_past)
qed

theorem read_past_end_witness:
  "Read \<lparr>buff = [1, 2], pos = 1\<rparr> [0, 0, 0] = Ret (\<lparr>buff = [1, 2], pos = 2\<rparr>, [2, 0, 0], 1, Some EOF) \<and>
   Read \<lparr>buff = [1, 2], pos = 2\<rparr> [0, 0, 0] = Ret (\<lparr>buff = [1, 2], pos = 2\<rparr>, [0, 0, 0], - 1, Some EOF) \<and>
   readFromPos \<lparr>buff = [1, 2], pos = 0\<rparr> [0, 0, 0] 1 False =
     Ret (\<lparr>buff = [1, 2], pos = 0\<rparr>, [2, 0, 0], 1, Some EOF) \<and>
   readFromPos \<lparr>buff = [1, 2], pos = 0\<rparr> [0, 0, 0] 5 False =
     Ret (\<lparr>buff = [1, 2], pos = 0\<rparr>, [0, 0, 0], - 1, Some EOF)"
proof -
  have h1: "0 \<le> pos \<lparr>buff = [1, 2 :: byte], pos = 1\<rparr> \<and>
            pos \<lparr>buff = [1, 2 :: byte], pos = 1\<rparr> < len (buff \<lparr>buff = [1, 2 :: byte], pos = 1\<rparr>) \<and>
            len (buff \<lparr>buff = [1, 2 :: byte], pos = 1\<rparr>) \<le> MaxInt \<and>
            len (buff \<lparr>buff = [1, 2 :: byte], pos = 1\<rparr>) - pos \<lparr>buff = [1, 2 :: byte], pos = 1\<rparr>
              < len [0, 0, 0 :: byte]"
    by (simp add: len_def MaxInt_def)
  have h2: "len (buff \<lparr>buff = [1, 2 :: byte], pos = 2\<rparr>) \<le> pos \<lparr>buff = [1, 2 :: byte], pos = 2\<rparr> \<and>
            pos \<lparr>buff = [1, 2 :: byte], pos = 2\<rparr> \<le> MaxInt"
    by (simp add: len_def MaxInt_def)
  have h3: "0 \<le> (1 :: int) \<and> 1 < len (buff \<lparr>buff = [1, 2 :: byte], pos = 0\<rparr>) \<and>
            len (buff \<lparr>buff = [1, 2 :: byte], pos = 0\<rparr>) \<le> MaxInt \<and>
            len (buff \<lparr>buff = [1, 2 :: byte], pos = 0\<rparr>) - 1 < len [0, 0, 0 :: byte]"
    by (simp add: len_def MaxInt_def)
  have h4: "len (buff \<lparr>buff = [1, 2 :: byte], pos = 0\<rparr>) \<le> 5 \<and> (5 :: int) \<le> MaxInt"
    by (simp add: len_def MaxInt_def)
  note t1 = read_past_end [of _ "\<lparr>buff = [1, 2], pos = 1\<rparr>" "[0, 0, 0]", THEN conjunct2,
      THEN conjunct2, THEN conjunct1, THEN mp, OF h1]
  note t2 = read_past_end [of _ "\<lparr>buff = [1, 2], pos = 2\<rparr>" "[0, 0, 0]", THEN conjunct2,
      THEN conjunct2, THEN conjunct2, THEN mp, OF h2]
  note t3 = read_past_end [of 1 "\<lparr>buff = [1, 2], pos = 0\<rparr>" "[0, 0, 0]" False, THEN conjunct1,
      THEN mp, OF h3]
  note t4 = read_past_end [of 5 "\<lparr>buff = [1, 2], pos = 0\<rparr>" "[0, 0, 0]" False, THEN conjunct2,
      THEN conjunct1, THEN mp, OF h4]
  show ?thesis
    using t1 t2 t3 t4 by (simp add: len_def)
qed

text \<open>
  C2 as stated fails: \<^verbatim>\<open>Read\<close> on the empty buffer returns the count \<open>- 1\<close>, not 0.
\<close>

theorem read_past_end_counterexample:
  "Read \<lparr>buff = [], pos = 0\<rparr> [0] = Ret (\<lparr>buff = [], pos = 0\<rparr>, [0], - 1, Some EOF) \<and>
   (- 1 :: int) \<noteq> 0"
  by (simp add: Read_def readFromPos_def len_def wrap64_def)

lemma ReadByte_not_ErrByteRead: "ReadByte m \<noteq> Ret (m', b, Some ErrByteRead)"
  by (auto simp: ReadByte_def Read_def readFromPos_def Let_def and_then_def min_int_def len_def
           split: outcome.splits option.splits if_splits)

lemma ReadByte_inside:
  assumes a: "0 \<le> pos m" "pos m < len (buff m)" "len (buff m) \<le> MaxInt"
  shows "ReadByte m = Ret (m\<lparr>pos := pos m + 1\<rparr>, buff m ! nat (pos m), None)"
proof -
  have n: "min (len (buff m) - pos m) (len (replicate 1 (0 :: byte))) = 1"
    using a by (simp add: len_def)
  have w: "wrap64 (pos m + 1) = pos m + 1"
    using a by (intro wrap64_id) (simp_all add: MaxInt_def)
  have "nat (pos m) < length (buff m)" using a by (auto simp: len_def)
  then have d: "take (Suc 0) (drop (nat (pos m)) (buff m)) = [buff m ! nat (pos m)]"
    by (simp add: take_Suc_conv_app_nth [of 0] hd_drop_conv_nth take_Suc)
  have "Read m (replicate 1 0) =
          Ret (m\<lparr>pos := pos m + 1\<rparr>, [buff m ! nat (pos m)], 1, None)"
    unfolding Read_def
    using a readFromPos_avail [of "pos m" m "replicate 1 0" True]
    by (simp only: n) (simp add: w d len_def)
  then show ?thesis
    by (simp add: ReadByte_def and_then_def)
qed

lemma ReadByte_end:
  assumes "len (buff m) \<le> pos m" "pos m \<le> MaxInt"
  shows "ReadByte m = Ret (m, 0, Some EOF)"
proof -
  have "Read m (replicate 1 0) = Ret (m, replicate 1 0, - 1, Some EOF)"
    using assms by (simp add: Read_def readFromPos_past)
  then show ?thesis
    by (simp add: ReadByte_def and_then_def)
qed

text \<open>
  C10. \<^verbatim>\<open>ReadByte\<close> never returns \<^verbatim>\<open>ErrByteRead\<close>. With the position inside the buffer
  it returns the byte there and moves the position by one; with the position at or
  past the end it returns \<^verbatim>\<open>io.EOF\<close> and leaves the buffer as it was.
\<close>

theorem ReadByte_cases:
  "(\<forall>m' b. ReadByte m \<noteq> Ret (m', b, Some ErrByteRead)) \<and>
   (0 \<le> pos m \<and> pos m < len (buff m) \<and> len (buff m) \<le> MaxInt \<longrightarrow>
      ReadByte m = Ret (m\<lparr>pos := pos m + 1\<rparr>, buff m ! nat (pos m), None)) \<and>
   (len (buff m) \<le> pos m \<and> pos m \<le> MaxInt \<longrightarrow> ReadByte m = Ret (m, 0, Some EOF))"
proof (intro conjI allI impI)
  fix m' b show "ReadByte m \<noteq> Ret (m', b, Some ErrByteRead)"
    by (rule ReadByte_not_ErrByteRead)
next
  assume "0 \<le> pos m \<and> pos m < len (buff m) \<and> len (buff m) \<le> MaxInt"
  then show "ReadByte m = Ret (m\<lparr>pos := pos m + 1\<rparr>, buff m ! nat (pos m), None)"
    by (simp add: ReadByte_inside)
next
  assume "len (buff m) \<le> pos m \<and> pos m \<le> MaxInt"
  then show "ReadByte m = Ret (m, 0, Some EOF)"
    by (simp add: ReadByte_end)
qed

theorem ReadByte_cases_witness:
  "ReadByte \<lparr>buff = [5, 6], pos = 1\<rparr> = Ret (\<lparr>buff = [5, 6], pos = 2\<rparr>, 6, None) \<and>
   ReadByte \<lparr>buff = [5, 6], pos = 2\<rparr> = Ret (\<lparr>buff = [5, 6], pos = 2\<rparr>, 0, Some EOF)"
proof -
  have h1: "0 \<le> pos \<lparr>buff = [5, 6 :: byte], pos = 1\<rparr> \<and>
            pos \<lparr>buff = [5, 6 :: byte], pos = 1\<rparr> < len (buff \<lparr>buff = [5, 6 :: byte], pos = 1\<rparr>) \<and>
            len (buff \<lparr>buff = [5, 6 :: byte], pos = 1\<rparr>) \<le> MaxInt"
    by (simp add: len_def MaxInt_def)
  have h2: "len (buff \<lparr>buff = [5, 6 :: byte], pos = 2\<rparr>) \<le> pos \<lparr>buff = [5, 6 :: byte], pos = 2\<rparr> \<and>
            pos \<lparr>buff = [5, 6 :: byte], pos = 2\<rparr> \<le> MaxInt"
    by (simp add: len_def MaxInt_def)
  note t1 = ReadByte_cases [of "\<lparr>buff = [5, 6], pos = 1\<rparr>", THEN conjunct2, THEN conjunct1,
      THEN mp, OF h1]
  note t2 = ReadByte_cases [of "\<lparr>buff = [5, 6], pos = 2\<rparr>", THEN conjunct2, THEN conjunct2,
      THEN mp, OF h2]
  show ?thesis using t1 t2 by simp
qed

section \<open>Varints\<close>

declare uvarint.simps [simp del]
declare PutUvarint_loop.simps [simp del]
declare ReadUvarint_loop.simps [simp del]

lemma uvarint_nonempty: "uvarint x \<noteq> []"
  by (subst uvarint.simps) simp

lemma uvarint_length_bound:
  "unat x < 2 ^ (7 * k) \<Longrightarrow> 0 < k \<Longrightarrow> length (uvarint x) \<le> k"
proof (induction x arbitrary: k rule: uvarint.induct)
  case (1 x)
  show ?case
  proof (cases "x \<ge> 0x80")
    case False
    then show ?thesis using "1.prems" by (subst uvarint.simps) simp
  next
    case True
    then have g: "128 \<le> unat x" by (simp add: word_le_nat_alt)
    have k2: "2 \<le> k"
    proof (rule ccontr)
      assume "\<not> 2 \<le> k"
      then have "k = 1" using "1.prems" by simp
      then show False using "1.prems" g by simp
    qed
    then obtain j where j: "k = Suc j" "0 < j" by (cases k) auto
    have "unat x < 2 ^ (7 * j) * 128" using "1.prems"(1) j by (simp add: power_add)
    then have "unat (drop_bit 7 x) < 2 ^ (7 * j)"
      by (simp add: drop_bit_eq_div unat_div less_mult_imp_div_less)
    then have "length (uvarint (drop_bit 7 x)) \<le> j" using "1.IH" True j by simp
    then show ?thesis using True j by (subst uvarint.simps) simp
  qed
qed

lemma uvarint_length: "length (uvarint x) \<le> 10"
proof -
  have "unat x < 2 ^ 64" using unsigned_less [of x, where 'a = nat] by simp
  also have "\<dots> \<le> (2 :: nat) ^ (7 * 10)" by simp
  finally show ?thesis by (intro uvarint_length_bound) simp_all
qed

lemma PutUvarint_loop_uvarint:
  "i + length (uvarint x) \<le> length buf \<Longrightarrow>
     PutUvarint_loop buf x i =
       Ret (take i buf @ uvarint x @ drop (i + length (uvarint x)) buf, int (i + length (uvarint x)))"
proof (induction buf x i rule: PutUvarint_loop.induct)
  case (1 buf x i)
  have i: "i < length buf" using "1.prems" uvarint_nonempty [of x]
    by (cases "uvarint x") auto
  show ?case
  proof (cases "x \<ge> 0x80")
    case False
    then have u: "uvarint x = [ucast x]" by (subst uvarint.simps) simp
    show ?thesis using False i
      by (subst PutUvarint_loop.simps) (simp add: u upd_conv_take_nth_drop)
  next
    case True
    then have u: "uvarint x = (ucast x OR 0x80) # uvarint (drop_bit 7 x)"
      by (subst uvarint.simps) simp
    have p: "i + 1 + length (uvarint (drop_bit 7 x)) \<le> length (buf[i := ucast x OR 0x80])"
      using "1.prems" u by simp
    have "PutUvarint_loop buf x i =
            PutUvarint_loop (buf[i := ucast x OR 0x80]) (drop_bit 7 x) (i + 1)"
      using True i by (subst PutUvarint_loop.simps) simp
    also have "\<dots> = Ret (take (i + 1) (buf[i := ucast x OR 0x80]) @ uvarint (drop_bit 7 x) @
                 drop (i + 1 + length (uvarint (drop_bit 7 x))) (buf[i := ucast x OR 0x80]),
               int (i + 1 + length (uvarint (drop_bit 7 x))))"
      using "1.IH" [OF True i p] .
    finally show ?thesis using i
      by (simp add: u take_Suc_conv_app_nth)
  qed
qed

lemma WriteUInt64Var_Write: "WriteUInt64Var m x = Write m (uvarint x)"
proof -
  have l: "length (uvarint x) \<le> 10" by (rule uvarint_length)
  then have e: "PutUvarint_loop (replicate 10 0) x 0 =
                 Ret (uvarint x @ replicate (10 - length (uvarint x)) 0, int (length (uvarint x)))"
    using PutUvarint_loop_uvarint [of 0 x "replicate 10 0"] by simp
  show ?thesis
    using l
    by (simp add: WriteUInt64Var_def PutUvarint_def e and_then_def slice_to_def len_def
          MaxVarintLen64_def)
qed

lemma Write_at_end:
  assumes "pos m = len (buff m)" "len (buff m) + len p \<le> MaxInt"
  shows "Write m p = Ret (m\<lparr>buff := buff m @ p, pos := len (buff m) + len p\<rparr>, len p, None)"
proof -
  have i: "invariant m" using assms by (simp add: invariant_def len_def)
  have o: "overlap m p (pos m) = 0" using assms by (simp add: overlap_def len_def)
  show ?thesis
    using Write_returns [OF i assms(2), unfolded o] assms(1) by (simp add: len_def)
qed

lemma write_vars_at_end:
  "pos m = len (buff m) \<Longrightarrow> len (buff m) + len (concat (map uvarint vs)) \<le> MaxInt \<Longrightarrow>
     write_vars m vs =
       Ret (m\<lparr>buff := buff m @ concat (map uvarint vs),
              pos := len (buff m) + len (concat (map uvarint vs))\<rparr>, None)"
proof (induction vs arbitrary: m)
  case Nil
  then show ?case by (simp add: len_def)
next
  case (Cons v vs)
  let ?m' = "m\<lparr>buff := buff m @ uvarint v, pos := len (buff m) + len (uvarint v)\<rparr>"
  have f: "len (buff m) + len (uvarint v) \<le> MaxInt"
    using Cons.prems(2) by (simp add: len_def)
  have w: "WriteUInt64Var m v = Ret (?m', len (uvarint v), None)"
    using Write_at_end [OF Cons.prems(1) f] by (simp add: WriteUInt64Var_Write)
  have p: "pos ?m' = len (buff ?m')" by (simp add: len_def)
  have f': "len (buff ?m') + len (concat (map uvarint vs)) \<le> MaxInt"
    using Cons.prems(2) by (simp add: len_def)
  show ?case
    using Cons.IH [OF p f'] by (simp add: w len_def)
qed


lemma ucast_low_less: "\<not> (x :: uint64) \<ge> 0x80 \<Longrightarrow> (ucast x :: byte) < 0x80"
  by (simp add: word_less_nat_alt word_le_nat_alt unsigned_ucast_eq take_bit_nat_eq_self)

lemma ucast_low_id: "\<not> (x :: uint64) \<ge> 0x80 \<Longrightarrow> ucast (ucast x :: byte) = x"
proof -
  assume "\<not> x \<ge> 0x80"
  then have "unat x < 2 ^ 8" by (simp add: word_le_nat_alt)
  then show ?thesis
    by (simp add: word_unat_eq_iff unsigned_ucast_eq unsigned_take_bit_eq take_bit_nat_eq_self)
qed

lemma continuation_not_less: "\<not> (ucast (x :: uint64) OR 0x80 :: byte) < 0x80"
  using le_word_or2 [of "0x80 :: byte" "ucast x"] by (simp add: or.commute not_less)

lemma payload_take_bit_gen: "k < 8 \<Longrightarrow>
  (ucast ((ucast (x :: uint64) OR (2 ^ k :: byte)) AND mask k) :: uint64) = take_bit k x"
  by (rule bit_eqI) (auto simp: bit_simps)

lemma payload_take_bit: "(ucast ((ucast (x :: uint64) OR 0x80 :: byte) AND 0x7f) :: uint64) = take_bit 7 x"
  using payload_take_bit_gen [of 7 x] by (simp add: mask_eq_exp_minus_1)

lemma push_bit_groups: "push_bit s (take_bit 7 (x :: uint64)) OR push_bit (s + 7) (drop_bit 7 x) = push_bit s x"
proof (rule bit_eqI)
  fix n
  have "n - s < 7 \<or> 7 + (n - (s + 7)) = n - s" by arith
  then show "bit (push_bit s (take_bit 7 x) OR push_bit (s + 7) (drop_bit 7 x)) n =
             bit (push_bit s x) n"
    by (auto simp: bit_simps)
qed

lemma ucast_tenth: "unat (y :: uint64) < 2 \<Longrightarrow> \<not> (ucast y :: byte) > 1"
  by (simp add: word_less_nat_alt unsigned_ucast_eq take_bit_nat_eq_self)


lemma ReadUvarint_loop_uvarint:
  "buff r = pre @ uvarint y @ rest \<Longrightarrow> pos r = len pre \<Longrightarrow> len (buff r) \<le> MaxInt \<Longrightarrow>
   i \<le> 9 \<Longrightarrow> unat y < 2 ^ (64 - 7 * i) \<Longrightarrow>
     ReadUvarint_loop r acc (7 * i) i =
       Ret (r\<lparr>pos := len pre + len (uvarint y)\<rparr>, acc OR push_bit (7 * i) y, None)"
proof (induction y arbitrary: r pre acc i rule: uvarint.induct)
  case (1 y)
  have i10: "i < MaxVarintLen64" using "1.prems"(4) by (simp add: MaxVarintLen64_def)
  have ne: "uvarint y \<noteq> []" by (rule uvarint_nonempty)
  have p0: "0 \<le> pos r" using "1.prems"(2) by (simp add: len_def)
  have "1 \<le> int (length (uvarint y))" using ne by (cases "uvarint y") simp_all
  then have p1: "pos r < len (buff r)" unfolding "1.prems"(1,2) len_def by simp
  have "buff r ! nat (pos r) = hd (uvarint y)"
    using "1.prems"(1,2) ne by (simp add: len_def nth_append hd_conv_nth)
  then have rb: "ReadByte r = Ret (r\<lparr>pos := pos r + 1\<rparr>, hd (uvarint y), None)"
    using ReadByte_inside [OF p0 p1 "1.prems"(3)] by simp
  show ?case
  proof (cases "y \<ge> 0x80")
    case False
    then have u: "uvarint y = [ucast y]" by (subst uvarint.simps) simp
    have t: "\<not> (i = MaxVarintLen64 - 1 \<and> (ucast y :: byte) > 1)"
    proof
      assume a: "i = MaxVarintLen64 - 1 \<and> (ucast y :: byte) > 1"
      then have "unat y < 2" using "1.prems"(5) by (simp add: MaxVarintLen64_def)
      then show False using a ucast_tenth by blast
    qed
    show ?thesis
      using i10 t ucast_low_less [OF False]
      by (subst ReadUvarint_loop.simps)
         (simp add: rb u ucast_low_id [OF False] "1.prems"(2) len_def)
  next
    case True
    let ?b = "ucast y OR 0x80 :: byte"
    let ?y' = "drop_bit 7 y"
    let ?r' = "r\<lparr>pos := pos r + 1\<rparr>"
    have u: "uvarint y = ?b # uvarint ?y'" using True by (subst uvarint.simps) simp
    have g: "128 \<le> unat y" using True by (simp add: word_le_nat_alt)
    have i8: "i \<le> 8"
    proof (rule ccontr)
      assume "\<not> i \<le> 8"
      then have "i = 9" using "1.prems"(4) by simp
      then show False using "1.prems"(5) g by simp
    qed
    define k where "k = 64 - 7 * (i + 1)"
    have ki: "64 - 7 * i = k + 7" using i8 by (simp add: k_def)
    have "unat y < 2 ^ (k + 7)" using "1.prems"(5) unfolding ki .
    then have "unat y < 2 ^ k * 128" by (simp add: power_add)
    then have "unat ?y' < 2 ^ k"
      by (simp add: drop_bit_eq_div unat_div less_mult_imp_div_less)
    then have y': "unat ?y' < 2 ^ (64 - 7 * (i + 1))" unfolding k_def .
    have b': "buff ?r' = (pre @ [?b]) @ uvarint ?y' @ rest" using "1.prems"(1) u by simp
    have p': "pos ?r' = len (pre @ [?b])" using "1.prems"(2) by (simp add: len_def)
    have l': "len (buff ?r') \<le> MaxInt" using "1.prems"(3) by simp
    have i': "i + 1 \<le> 9" using i8 by simp
    have ih: "ReadUvarint_loop ?r' (acc OR push_bit (7 * i) (take_bit 7 y)) (7 * (i + 1)) (i + 1) =
            Ret (?r'\<lparr>pos := len (pre @ [?b]) + len (uvarint ?y')\<rparr>,
                 (acc OR push_bit (7 * i) (take_bit 7 y)) OR push_bit (7 * (i + 1)) ?y', None)"
      by (rule "1.IH" [OF True b' p' l' i' y'])
    have s: "7 * i + 7 = 7 * (i + 1)" by simp
    have v: "(acc OR push_bit (7 * i) (take_bit 7 y)) OR push_bit (7 * (i + 1)) ?y' =
             acc OR push_bit (7 * i) y"
      using push_bit_groups [of "7 * i" y] by (simp add: or.assoc add.commute)
    have "ReadUvarint_loop r acc (7 * i) i =
            ReadUvarint_loop ?r' (acc OR push_bit (7 * i) (ucast (?b AND 0x7f))) (7 * i + 7) (i + 1)"
      using i10 continuation_not_less [of y]
      by (subst ReadUvarint_loop.simps) (simp add: rb u)
    then have "ReadUvarint_loop r acc (7 * i) i =
            ReadUvarint_loop ?r' (acc OR push_bit (7 * i) (take_bit 7 y)) (7 * (i + 1)) (i + 1)"
      by (simp only: payload_take_bit s)
    then show ?thesis
      unfolding ih v by (simp add: u len_def)
  qed
qed


lemma ReadUInt64Var_uvarint:
  assumes "buff r = pre @ uvarint y @ rest" "pos r = len pre" "len (buff r) \<le> MaxInt"
  shows "ReadUInt64Var r = Ret (r\<lparr>pos := len pre + len (uvarint y)\<rparr>, y, None)"
proof -
  have "unat y < 2 ^ 64" using unsigned_less [of y, where 'a = nat] by simp
  then have "unat y < 2 ^ (64 - 7 * 0)" by simp
  from ReadUvarint_loop_uvarint [OF assms _ this, of 0]
  show ?thesis by (simp add: ReadUInt64Var_def ReadUvarint_def)
qed

lemma ReadUInt64Var_end:
  assumes "pos r = len (buff r)" "len (buff r) \<le> MaxInt"
  shows "ReadUInt64Var r = Ret (r, 0, Some EOF)"
proof -
  have "ReadByte r = Ret (r, 0, Some EOF)"
    using assms by (intro ReadByte_end) simp_all
  then show ?thesis
    by (subst ReadUInt64Var_def, subst ReadUvarint_def, subst ReadUvarint_loop.simps)
       (simp add: MaxVarintLen64_def)
qed

lemma read_vars_uvarint:
  "buff m = pre @ concat (map uvarint vs) @ rest \<Longrightarrow> pos m = len pre \<Longrightarrow>
   len (buff m) \<le> MaxInt \<Longrightarrow>
     read_vars m (length vs) =
       Ret (m\<lparr>pos := len pre + len (concat (map uvarint vs))\<rparr>, vs, None)"
proof (induction vs arbitrary: m pre)
  case Nil
  then show ?case by (simp add: len_def)
next
  case (Cons v vs)
  let ?m' = "m\<lparr>pos := len pre + len (uvarint v)\<rparr>"
  have b: "buff m = pre @ uvarint v @ (concat (map uvarint vs) @ rest)"
    using Cons.prems(1) by simp
  have r: "ReadUInt64Var m = Ret (?m', v, None)"
    by (rule ReadUInt64Var_uvarint [OF b Cons.prems(2,3)])
  have b': "buff ?m' = (pre @ uvarint v) @ concat (map uvarint vs) @ rest"
    using Cons.prems(1) by simp
  have p': "pos ?m' = len (pre @ uvarint v)" by (simp add: len_def)
  have l': "len (buff ?m') \<le> MaxInt" using Cons.prems(3) by simp
  show ?case
    using Cons.IH [OF b' p' l'] by (simp add: r len_def)
qed

lemma concat_uvarint_length: "length (concat (map uvarint vs)) \<le> 10 * length vs"
proof (induction vs)
  case Nil
  show ?case by simp
next
  case (Cons v vs)
  then show ?case using uvarint_length [of v] by simp
qed

text \<open>
  The round trip holds for every non-empty list of 64-bit values, not only for the
  powers of two.
\<close>

lemma roundtrip_any_values:
  assumes ne: "vs \<noteq> []" and fit: "10 * len vs \<le> MaxInt"
  shows "write_vars (NewByteBuffer 0) vs =
           Ret (\<lparr>buff = concat (map uvarint vs), pos = len (concat (map uvarint vs))\<rparr>, None)"
    and "SeekToStart \<lparr>buff = concat (map uvarint vs), pos = len (concat (map uvarint vs))\<rparr> =
           (\<lparr>buff = concat (map uvarint vs), pos = 0\<rparr>, 0, None)"
    and "read_vars \<lparr>buff = concat (map uvarint vs), pos = 0\<rparr> (length vs) =
           Ret (\<lparr>buff = concat (map uvarint vs), pos = len (concat (map uvarint vs))\<rparr>, vs, None)"
    and "ReadUInt64Var \<lparr>buff = concat (map uvarint vs), pos = len (concat (map uvarint vs))\<rparr> =
           Ret (\<lparr>buff = concat (map uvarint vs), pos = len (concat (map uvarint vs))\<rparr>, 0, Some EOF)"
proof -
  let ?bs = "concat (map uvarint vs)"
  have lb: "len ?bs \<le> MaxInt"
    using concat_uvarint_length [of vs] fit by (simp add: len_def)
  have "write_vars \<lparr>buff = [], pos = 0\<rparr> vs =
          Ret (\<lparr>buff = [], pos = 0\<rparr>\<lparr>buff := buff \<lparr>buff = [], pos = 0\<rparr> @ ?bs,
                 pos := len (buff \<lparr>buff = [] :: byte list, pos = 0\<rparr>) + len ?bs\<rparr>, None)"
    using lb by (intro write_vars_at_end) (simp_all add: len_def)
  then show "write_vars (NewByteBuffer 0) vs = Ret (\<lparr>buff = ?bs, pos = len ?bs\<rparr>, None)"
    by (simp add: NewByteBuffer_def Reset_def len_def)
  obtain v vs' where "vs = v # vs'" using ne by (cases vs) auto
  then have "?bs \<noteq> []" using uvarint_nonempty [of v] by simp
  then have "0 < len ?bs" by (simp add: len_def)
  then show "SeekToStart \<lparr>buff = ?bs, pos = len ?bs\<rparr> = (\<lparr>buff = ?bs, pos = 0\<rparr>, 0, None)"
    by (simp add: SeekToStart_def Seek_def seek_target_def SeekStart_def posOverflow_def)
  have "read_vars \<lparr>buff = ?bs, pos = 0\<rparr> (length vs) =
          Ret (\<lparr>buff = ?bs, pos = 0\<rparr>\<lparr>pos := len ([] :: byte list) + len ?bs\<rparr>, vs, None)"
    using lb by (intro read_vars_uvarint [where rest = "[]"]) (simp_all add: len_def)
  then show "read_vars \<lparr>buff = ?bs, pos = 0\<rparr> (length vs) =
          Ret (\<lparr>buff = ?bs, pos = len ?bs\<rparr>, vs, None)"
    by (simp add: len_def)
  show "ReadUInt64Var \<lparr>buff = ?bs, pos = len ?bs\<rparr> = Ret (\<lparr>buff = ?bs, pos = len ?bs\<rparr>, 0, Some EOF)"
    using lb by (intro ReadUInt64Var_end) simp_all
qed

text \<open>
  C8. The 63 powers of two \<open>1, 2, 4, \<dots>, 2 ^ 62\<close> are written one after the other
  with \<^verbatim>\<open>WriteUInt64Var\<close> into \<^verbatim>\<open>NewByteBuffer(0)\<close>, none of the writes failing;
  \<^verbatim>\<open>SeekToStart\<close> succeeds; 63 calls of \<^verbatim>\<open>ReadUInt64Var\<close> return the same values in
  the same order, without error; one more call returns \<^verbatim>\<open>io.EOF\<close>.
\<close>

theorem varint_roundtrip_powers_of_two:
  "length powers_of_two = 63 \<and>
   (\<exists>m1 m2 m3.
      write_vars (NewByteBuffer 0) powers_of_two = Ret (m1, None) \<and>
      SeekToStart m1 = (m2, 0, None) \<and>
      read_vars m2 63 = Ret (m3, powers_of_two, None) \<and>
      ReadUInt64Var m3 = Ret (m3, 0, Some EOF))"
proof -
  have l: "length powers_of_two = 63" by (simp add: powers_of_two_def)
  then have ne: "powers_of_two \<noteq> []" by auto
  have fit: "10 * len powers_of_two \<le> MaxInt" by (simp add: len_def l MaxInt_def)
  show ?thesis
    using roundtrip_any_values [OF ne fit] l by auto
qed

section \<open>Failing calls\<close>

lemma Seek_fails_frame: "Seek m off w = (m', r, Some e) \<Longrightarrow> m' = m \<and> r = - 1"
  by (auto simp: Seek_def split: option.splits if_splits)

lemma WriteAt_fails_frame:
  "WriteAt m p off = Ret (m', n, Some e) \<Longrightarrow>
     m' = m \<and> n = - 1 \<and> (e = ErrOffsetNegative \<or> e = ErrOffsetOverflow)"
  by (auto simp: WriteAt_def and_then_def split: if_splits outcome.splits option.splits
           dest: writeFromPos_nil)

lemma Read_fails_frame:
  "Read m p = Ret (m', p', n, Some e) \<Longrightarrow> n \<le> 0 \<Longrightarrow> m' = m \<and> p' = p \<and> n = - 1 \<and> e = EOF"
  by (auto simp: Read_def readFromPos_def Let_def and_then_def min_int_def len_def
           split: if_splits outcome.splits)

lemma ReadByte_fails_frame: "ReadByte m = Ret (m', b, Some e) \<Longrightarrow> m' = m \<and> e = EOF"
  by (auto simp: ReadByte_def Read_def readFromPos_def Let_def and_then_def min_int_def len_def
           split: if_splits outcome.splits option.splits)

lemma ReadByte_buff: "ReadByte m = Ret (m', b, e) \<Longrightarrow> buff m' = buff m"
  by (auto simp: ReadByte_def Read_def readFromPos_def Let_def and_then_def
           split: if_splits outcome.splits option.splits)

lemma ReadUvarint_loop_buff:
  "ReadUvarint_loop r x s i = Ret (r', x', e) \<Longrightarrow> buff r' = buff r"
proof (induction r x s i rule: ReadUvarint_loop.induct)
  case (1 r x s i)
  show ?case
  proof (cases "i < MaxVarintLen64")
    case False
    then show ?thesis using "1.prems" by (subst (asm) ReadUvarint_loop.simps) simp
  next
    case True
    show ?thesis
    proof (cases "ReadByte r")
      case Panic
      then show ?thesis using "1.prems" True by (subst (asm) ReadUvarint_loop.simps) simp
    next
      case (Ret y)
      obtain r1 b e1 where y: "y = (r1, b, e1)" by (cases y) auto
      have b1: "buff r1 = buff r" using Ret y ReadByte_buff by blast
      show ?thesis
      proof (cases "e1 = None \<and> \<not> b < 0x80")
        case False
        then show ?thesis using "1.prems" True Ret y b1
          by (subst (asm) ReadUvarint_loop.simps) (auto split: option.splits if_splits)
      next
        case c: True
        then have "ReadUvarint_loop r1 (x OR push_bit s (ucast (b AND 0x7f))) (s + 7) (i + 1) =
                     Ret (r', x', e)"
          using "1.prems" True Ret y by (subst (asm) ReadUvarint_loop.simps) simp
        then have "buff r' = buff r1"
          using "1.IH" [OF True Ret y [symmetric] refl _ _] c by auto
        then show ?thesis using b1 by simp
      qed
    qed
  qed
qed

lemma ReadUvarint_loop_EOF:
  "invariant r \<Longrightarrow> len (buff r) \<le> MaxInt \<Longrightarrow>
   ReadUvarint_loop r x s i = Ret (r', x', Some EOF) \<Longrightarrow> pos r' = len (buff r)"
proof (induction r x s i rule: ReadUvarint_loop.induct)
  case (1 r x s i)
  have i10: "i < MaxVarintLen64"
  proof (rule ccontr)
    assume "\<not> i < MaxVarintLen64"
    then show False using "1.prems"(3) by (subst (asm) ReadUvarint_loop.simps) simp
  qed
  show ?case
  proof (cases "pos r < len (buff r)")
    case False
    then have e: "pos r = len (buff r)" using "1.prems"(1) by (simp add: invariant_def)
    then have "ReadByte r = Ret (r, 0, Some EOF)"
      using "1.prems"(2) by (intro ReadByte_end) simp_all
    then have "r' = r" using "1.prems"(3) i10 by (subst (asm) ReadUvarint_loop.simps) simp
    then show ?thesis using e by simp
  next
    case True
    have p0: "0 \<le> pos r" using "1.prems"(1) by (simp add: invariant_def)
    let ?r1 = "r\<lparr>pos := pos r + 1\<rparr>"
    let ?b = "buff r ! nat (pos r)"
    have rb: "ReadByte r = Ret (?r1, ?b, None)"
      by (rule ReadByte_inside [OF p0 True "1.prems"(2)])
    have nb: "\<not> ?b < 0x80"
    proof
      assume "?b < 0x80"
      then show False using "1.prems"(3) i10
        by (subst (asm) ReadUvarint_loop.simps) (simp add: rb split: if_splits)
    qed
    have rec: "ReadUvarint_loop ?r1 (x OR push_bit s (ucast (?b AND 0x7f))) (s + 7) (i + 1) =
                 Ret (r', x', Some EOF)"
      using "1.prems"(3) i10 nb by (subst (asm) ReadUvarint_loop.simps) (simp add: rb)
    have i1: "invariant ?r1" using p0 True by (simp add: invariant_def)
    have l1: "len (buff ?r1) \<le> MaxInt" using "1.prems"(2) by simp
    have "pos r' = len (buff ?r1)"
      using "1.IH" [OF i10 rb refl refl _ _ i1 l1 rec] nb by simp
    then show ?thesis by simp
  qed
qed

text \<open>
  A varint cut off after a continuation byte: \<^verbatim>\<open>ReadUInt64Var\<close> returns the error of
  \<^verbatim>\<open>ReadByte\<close>, and the position stays behind the byte it consumed.
\<close>

lemma ReadUInt64Var_truncated:
  "ReadUInt64Var \<lparr>buff = [0x80], pos = 0\<rparr> = Ret (\<lparr>buff = [0x80], pos = 1\<rparr>, 0, Some EOF)"
proof -
  have a: "ReadByte \<lparr>buff = [0x80], pos = 0\<rparr> = Ret (\<lparr>buff = [0x80], pos = 1\<rparr>, 0x80, None)"
    using ReadByte_inside [of "\<lparr>buff = [0x80], pos = 0\<rparr>"] by (simp add: len_def MaxInt_def)
  have b: "ReadByte \<lparr>buff = [0x80], pos = 1\<rparr> = Ret (\<lparr>buff = [0x80], pos = 1\<rparr>, 0, Some EOF)"
    using ReadByte_end [of "\<lparr>buff = [0x80], pos = 1\<rparr>"] by (simp add: len_def MaxInt_def)
  show ?thesis
    by (simp add: ReadUInt64Var_def ReadUvarint_def ReadUvarint_loop.simps [of _ _ _ 0]
          ReadUvarint_loop.simps [of _ _ _ "Suc 0"] a b MaxVarintLen64_def)
qed


text \<open>
  C6, as amended. These failing calls return the buffer they were given, position and
  bytes: a \<^verbatim>\<open>Seek\<close> that returns an error, \<^verbatim>\<open>ReadAt\<close> and \<^verbatim>\<open>ByteAt\<close> whatever they
  return, a \<^verbatim>\<open>WriteAt\<close> that returns an error (then \<^verbatim>\<open>ErrOffsetNegative\<close> or
  \<^verbatim>\<open>ErrOffsetOverflow\<close>), a \<^verbatim>\<open>Read\<close> that returns an error and no byte (then the count
  is \<open>- 1\<close> and the error \<^verbatim>\<open>io.EOF\<close>), and a \<^verbatim>\<open>ReadByte\<close> that returns an error.
  \<^verbatim>\<open>ReadUInt64Var\<close> never changes the bytes, but when it fails with \<^verbatim>\<open>io.EOF\<close> it
  leaves the position at the end of the buffer, behind the bytes it consumed.
\<close>

theorem failure_frame:
  "(\<forall>m' r e. Seek m off w = (m', r, Some e) \<longrightarrow> m' = m \<and> r = - 1) \<and>
   (\<forall>m' p' n e. ReadAt m p off = Ret (m', p', n, e) \<longrightarrow> m' = m) \<and>
   (\<forall>m' b e. ByteAt m i = Ret (m', b, e) \<longrightarrow> m' = m) \<and>
   (\<forall>m' n e. WriteAt m p off = Ret (m', n, Some e) \<longrightarrow>
      m' = m \<and> n = - 1 \<and> (e = ErrOffsetNegative \<or> e = ErrOffsetOverflow)) \<and>
   (\<forall>m' p' n e. Read m p = Ret (m', p', n, Some e) \<and> n \<le> 0 \<longrightarrow>
      m' = m \<and> p' = p \<and> n = - 1 \<and> e = EOF) \<and>
   (\<forall>m' b e. ReadByte m = Ret (m', b, Some e) \<longrightarrow> m' = m \<and> e = EOF) \<and>
   (\<forall>m' x e. ReadUInt64Var m = Ret (m', x, e) \<longrightarrow> buff m' = buff m) \<and>
   (\<forall>m' x. invariant m \<and> len (buff m) \<le> MaxInt \<and> ReadUInt64Var m = Ret (m', x, Some EOF) \<longrightarrow>
      pos m' = len (buff m))"
proof (intro conjI allI impI)
  fix m' r e assume "Seek m off w = (m', r, Some e)"
  then show "m' = m" "r = - 1" using Seek_fails_frame by blast+
next
  fix m' p' n e assume "ReadAt m p off = Ret (m', p', n, e)"
  then show "m' = m" using ReadAt_frame [of m p off] by auto
next
  fix m' b e assume a: "ByteAt m i = Ret (m', b, e)"
  obtain p' n err where "ReadAt m (replicate 1 0) (word_of_int i) = Ret (m, p', n, err)"
    using ReadAt_frame by blast
  then show "m' = m" using a
    by (auto simp: ByteAt_def and_then_def split: option.splits if_splits)
next
  fix m' n e assume "WriteAt m p off = Ret (m', n, Some e)"
  then show "m' = m" "n = - 1" "e = ErrOffsetNegative \<or> e = ErrOffsetOverflow"
    using WriteAt_fails_frame by blast+
next
  fix m' p' n e assume "Read m p = Ret (m', p', n, Some e) \<and> n \<le> 0"
  then show "m' = m" "p' = p" "n = - 1" "e = EOF"
    using Read_fails_frame by blast+
next
  fix m' b e assume "ReadByte m = Ret (m', b, Some e)"
  then show "m' = m" "e = EOF" using ReadByte_fails_frame by blast+
next
  fix m' x e assume "ReadUInt64Var m = Ret (m', x, e)"
  then show "buff m' = buff m"
    using ReadUvarint_loop_buff by (simp add: ReadUInt64Var_def ReadUvarint_def)
next
  fix m' x
  assume "invariant m \<and> len (buff m) \<le> MaxInt \<and> ReadUInt64Var m = Ret (m', x, Some EOF)"
  then show "pos m' = len (buff m)"
    using ReadUvarint_loop_EOF [of m 0 0 0 m' x] by (simp add: ReadUInt64Var_def ReadUvarint_def)
qed

theorem failure_frame_witness:
  "Seek \<lparr>buff = [1, 2], pos = 1\<rparr> 2 SeekStart = (\<lparr>buff = [1, 2], pos = 1\<rparr>, - 1, Some ErrSeekOverflow) \<and>
   ReadAt \<lparr>buff = [1, 2], pos = 1\<rparr> [0] 2 =
     Ret (\<lparr>buff = [1, 2], pos = 1\<rparr>, [0], - 1, Some ErrOffsetOverflow) \<and>
   ByteAt \<lparr>buff = [1, 2], pos = 1\<rparr> 2 = Ret (\<lparr>buff = [1, 2], pos = 1\<rparr>, 0, Some ErrOffsetOverflow) \<and>
   WriteAt \<lparr>buff = [1, 2], pos = 1\<rparr> [9] (- 1) =
     Ret (\<lparr>buff = [1, 2], pos = 1\<rparr>, - 1, Some ErrOffsetNegative) \<and>
   Read \<lparr>buff = [1, 2], pos = 2\<rparr> [0] = Ret (\<lparr>buff = [1, 2], pos = 2\<rparr>, [0], - 1, Some EOF) \<and>
   ReadByte \<lparr>buff = [1, 2], pos = 2\<rparr> = Ret (\<lparr>buff = [1, 2], pos = 2\<rparr>, 0, Some EOF) \<and>
   invariant \<lparr>buff = [0x80], pos = 0\<rparr> \<and> len (buff \<lparr>buff = [0x80], pos = 0\<rparr>) \<le> MaxInt \<and>
   ReadUInt64Var \<lparr>buff = [0x80], pos = 0\<rparr> = Ret (\<lparr>buff = [0x80], pos = 1\<rparr>, 0, Some EOF) \<and>
   buff \<lparr>buff = [0x80 :: byte], pos = 1\<rparr> = buff \<lparr>buff = [0x80], pos = 0\<rparr> \<and>
   pos \<lparr>buff = [0x80 :: byte], pos = 1\<rparr> = len (buff \<lparr>buff = [0x80 :: byte], pos = 0\<rparr>)"
proof -
  let ?m = "\<lparr>buff = [1, 2 :: byte], pos = 1\<rparr>"
  let ?e = "\<lparr>buff = [1, 2 :: byte], pos = 2\<rparr>"
  let ?v = "\<lparr>buff = [0x80 :: byte], pos = 0\<rparr>"
  let ?v' = "\<lparr>buff = [0x80 :: byte], pos = 1\<rparr>"
  note c1 = conjunct1
  note c2 = conjunct2
  have s: "Seek ?m 2 SeekStart = (fst (Seek ?m 2 SeekStart), fst (snd (Seek ?m 2 SeekStart)),
             Some ErrSeekOverflow)"
    by (simp add: Seek_def seek_target_def SeekStart_def posOverflow_def len_def)
  obtain ma where ra0: "ReadAt ?m [0] 2 = Ret (ma, [0], - 1, Some ErrOffsetOverflow)"
    by (simp add: ReadAt_def posOverflow_def len_def)
  obtain mc where ba0: "ByteAt ?m 2 = Ret (mc, 0, Some ErrOffsetOverflow)"
    by (simp add: ByteAt_def ReadAt_def posOverflow_def len_def and_then_def)
  obtain mw nw where w: "WriteAt ?m [9] (- 1) = Ret (mw, nw, Some ErrOffsetNegative)"
    by (simp add: WriteAt_def)
  obtain mr pr nr where r: "Read ?e [0] = Ret (mr, pr, nr, Some EOF) \<and> nr \<le> 0"
    by (simp add: Read_def readFromPos_def len_def wrap64_def)
  obtain mb bb where b: "ReadByte ?e = Ret (mb, bb, Some EOF)" "bb = 0"
    by (simp add: ReadByte_def Read_def readFromPos_def len_def wrap64_def and_then_def)
  have iv: "invariant ?v \<and> len (buff ?v) \<le> MaxInt"
    by (simp add: invariant_def len_def MaxInt_def)
  have tr: "ReadUInt64Var ?v = Ret (?v', 0, Some EOF)" by (rule ReadUInt64Var_truncated)
  note f1 = failure_frame [of ?m 2 SeekStart "[0]" 2, THEN c1, rule_format, OF s]
  note f2 = failure_frame [of ?m 2 SeekStart "[0]" 2, THEN c2, THEN c1, rule_format, OF ra0]
  note f2b = failure_frame [of ?m 2 SeekStart "[0]" 2, THEN c2, THEN c2, THEN c1, rule_format,
      OF ba0]
  note f3 = failure_frame [of ?m "- 1" SeekStart "[9]" 2, THEN c2, THEN c2, THEN c2,
      THEN c1, rule_format, OF w]
  note f4 = failure_frame [of ?e 0 SeekStart "[0]" 2, THEN c2, THEN c2, THEN c2, THEN c2,
      THEN c1, rule_format, OF r]
  note f5 = failure_frame [of ?e 0 SeekStart "[0]" 2, THEN c2, THEN c2, THEN c2, THEN c2,
      THEN c2, THEN c1, rule_format, OF b(1)]
  note f6 = failure_frame [of ?v 0 SeekStart "[0]" 2, THEN c2, THEN c2, THEN c2, THEN c2,
      THEN c2, THEN c2, THEN c1, rule_format, OF tr]
  have ivt: "invariant ?v \<and> len (buff ?v) \<le> MaxInt \<and> ReadUInt64Var ?v = Ret (?v', 0, Some EOF)"
    using iv tr by blast
  note f7 = failure_frame [of ?v 0 SeekStart "[0]" 2, THEN c2, THEN c2, THEN c2, THEN c2,
      THEN c2, THEN c2, THEN c2, rule_format, OF ivt]
  have "Seek ?m 2 SeekStart = (?m, - 1, Some ErrSeekOverflow)"
    using s f1 by simp
  moreover have "ReadAt ?m [0] 2 = Ret (?m, [0], - 1, Some ErrOffsetOverflow)"
    using ra0 f2 by simp
  moreover have "ByteAt ?m 2 = Ret (?m, 0, Some ErrOffsetOverflow)"
    using ba0 f2b by simp
  moreover have "WriteAt ?m [9] (- 1) = Ret (?m, - 1, Some ErrOffsetNegative)"
    using w f3 by simp
  moreover have "Read ?e [0] = Ret (?e, [0], - 1, Some EOF)"
    using r f4 by simp
  moreover have "ReadByte ?e = Ret (?e, 0, Some EOF)"
    using b f5 by simp
  ultimately show ?thesis using iv tr f6 f7 by blast
qed

text \<open>
  C6 as stated fails: on the one-byte buffer \<open>[0x80]\<close> \<^verbatim>\<open>ReadUInt64Var\<close> fails with
  \<^verbatim>\<open>io.EOF\<close>, and the position has moved from 0 to 1.
\<close>

theorem failure_frame_counterexample:
  "ReadUInt64Var \<lparr>buff = [0x80], pos = 0\<rparr> = Ret (\<lparr>buff = [0x80], pos = 1\<rparr>, 0, Some EOF) \<and>
   \<lparr>buff = [0x80 :: byte], pos = 1\<rparr> \<noteq> \<lparr>buff = [0x80], pos = 0\<rparr>"
  using ReadUInt64Var_truncated by simp

section \<open>The invariant\<close>

lemma returns_with_invariant_Ret [simp]:
  "returns_with_invariant (Ret (m', x)) = invariant m'"
  by (simp add: returns_with_invariant_def)

lemma invariant_Reset: "invariant (Reset m sz)"
  by (simp add: Reset_def invariant_def len_def)

lemma invariant_Clone: "invariant (Clone m)"
  by (simp add: Clone_def NewByteBuffer_def Reset_def Size_def invariant_def len_def Let_def)

lemma invariant_WriteByte: "invariant (fst (WriteByte m c))"
  by (simp add: WriteByte_def invariant_def len_def Let_def)

lemma invariant_Seek: "invariant m \<Longrightarrow> invariant (fst (Seek m off w))"
  by (auto simp: Seek_def posOverflow_def invariant_def split: option.splits)

lemma invariant_ReadAt: "invariant m \<Longrightarrow> returns_with_invariant (ReadAt m p off)"
  using ReadAt_frame [of m p off] by auto

lemma invariant_ByteAt: "invariant m \<Longrightarrow> returns_with_invariant (ByteAt m i)"
proof -
  assume i: "invariant m"
  obtain p' n err where "ReadAt m (replicate 1 0) (word_of_int i) = Ret (m, p', n, err)"
    using ReadAt_frame by blast
  then show ?thesis using i
    by (simp add: ByteAt_def and_then_def split: option.split)
qed

lemma invariant_Read:
  assumes i: "invariant m" and fit: "len (buff m) \<le> MaxInt"
  shows "returns_with_invariant (Read m p)"
proof (cases "pos m < len (buff m)")
  case True
  have p0: "0 \<le> pos m" using i by (simp add: invariant_def)
  define n where "n = min (len (buff m) - pos m) (len p)"
  have "0 \<le> len p" by (simp add: len_def)
  then have n: "0 \<le> n" "pos m + n \<le> len (buff m)" using True by (simp_all add: n_def)
  have "- (2 ^ 63) \<le> pos m + n" "pos m + n < 2 ^ 63"
    using p0 n fit by (simp_all add: MaxInt_def)
  then have w: "wrap64 (pos m + n) = pos m + n" by (rule wrap64_id)
  show ?thesis
    unfolding Read_def readFromPos_avail [OF p0 True fit] n_def [symmetric]
    using p0 n by (simp add: w invariant_def)
next
  case False
  then have "len (buff m) \<le> pos m" "pos m \<le> MaxInt"
    using i fit by (simp_all add: invariant_def)
  then show ?thesis using i by (simp add: Read_def readFromPos_past)
qed

lemma invariant_ReadByte_step:
  assumes i: "invariant m" and fit: "len (buff m) \<le> MaxInt"
  shows "\<exists>m' b e. ReadByte m = Ret (m', b, e) \<and> invariant m' \<and> buff m' = buff m"
proof (cases "pos m < len (buff m)")
  case True
  have p0: "0 \<le> pos m" using i by (simp add: invariant_def)
  show ?thesis
    using ReadByte_inside [OF p0 True fit] p0 True by (simp add: invariant_def)
next
  case False
  then have "len (buff m) \<le> pos m" "pos m \<le> MaxInt"
    using i fit by (simp_all add: invariant_def)
  then show ?thesis using i by (simp add: ReadByte_end)
qed

lemma invariant_ReadByte:
  "invariant m \<Longrightarrow> len (buff m) \<le> MaxInt \<Longrightarrow> returns_with_invariant (ReadByte m)"
  using invariant_ReadByte_step [of m] by auto

lemma invariant_ReadUvarint_loop:
  "invariant r \<Longrightarrow> len (buff r) \<le> MaxInt \<Longrightarrow>
     returns_with_invariant (ReadUvarint_loop r x s i)"
proof (induction r x s i rule: ReadUvarint_loop.induct)
  case (1 r x s i)
  obtain r' b e where rb: "ReadByte r = Ret (r', b, e)" "invariant r'" "buff r' = buff r"
    using invariant_ReadByte_step [OF "1.prems"] by blast
  show ?case
  proof (cases "i < MaxVarintLen64 \<and> e = None \<and> \<not> b < 0x80")
    case True
    then have "returns_with_invariant
                 (ReadUvarint_loop r' (x OR push_bit s (ucast (b AND 0x7f))) (s + 7) (i + 1))"
      using "1.IH" [of "(r', b, e)" r' "(b, e)" b e] rb "1.prems"(2) by simp
    then show ?thesis using True rb
      by (subst ReadUvarint_loop.simps) simp
  next
    case False
    then show ?thesis using rb "1.prems"(1)
      by (subst ReadUvarint_loop.simps) (auto split: option.splits)
  qed
qed

lemma invariant_ReadUInt64Var:
  "invariant m \<Longrightarrow> len (buff m) \<le> MaxInt \<Longrightarrow> returns_with_invariant (ReadUInt64Var m)"
  by (simp add: ReadUInt64Var_def ReadUvarint_def invariant_ReadUvarint_loop)

lemma write_result_invariant:
  assumes "0 \<le> ps" "ps \<le> len (buff m)" "0 \<le> q" "q \<le> len (buff m)"
  shows "invariant (m\<lparr>buff := take (nat ps) (buff m) @ take (nat (overlap m p ps)) p @
                          drop (nat (ps + overlap m p ps)) (buff m) @
                          drop (nat (overlap m p ps)) p,
                       pos := q + (len p - overlap m p ps)\<rparr>)"
proof -
  let ?ov = "overlap m p ps"
  have l0: "0 \<le> len p" by (simp add: len_def)
  have ovr: "0 \<le> ?ov" "?ov \<le> len p" "?ov \<le> len (buff m) - ps"
    using assms l0 by (simp_all add: overlap_def)
  define a where "a = nat ps"
  define b where "b = nat ?ov"
  have bd: "b \<le> length p" "a + b \<le> length (buff m)"
    using ovr assms(1) unfolding a_def b_def len_def by linarith+
  have "length (take a (buff m) @ take b p @ drop (a + b) (buff m) @ drop b p) =
        length (buff m) + (length p - b)"
    using bd by simp
  moreover have "nat (ps + ?ov) = a + b"
    using assms(1) ovr(1) by (simp add: a_def b_def nat_add_distrib)
  moreover have "q + (len p - ?ov) \<le> int (length (buff m) + (length p - b))"
    using assms(4) bd ovr(1) unfolding b_def len_def by linarith
  moreover have "0 \<le> q + (len p - ?ov)" using assms(3) ovr by simp
  ultimately show ?thesis
    unfolding invariant_def by (simp add: len_def a_def [symmetric] b_def [symmetric])
qed

lemma invariant_Write:
  assumes i: "invariant m" and fit: "len (buff m) + len p \<le> MaxInt"
  shows "returns_with_invariant (Write m p)"
proof -
  have ps: "0 \<le> pos m" "pos m \<le> len (buff m)" using i by (simp_all add: invariant_def)
  show ?thesis
    unfolding Write_returns [OF i fit]
    using write_result_invariant [OF ps ps] by simp
qed

lemma invariant_WriteAt:
  assumes i: "invariant m" and fit: "len (buff m) + len p \<le> MaxInt"
  shows "returns_with_invariant (WriteAt m p off)"
proof (cases "0 \<le> sint off \<and> sint off < len (buff m)")
  case True
  then have ps: "0 \<le> sint off" "sint off \<le> len (buff m)" by simp_all
  have q: "0 \<le> pos m" "pos m \<le> len (buff m)" using i by (simp_all add: invariant_def)
  let ?ov = "overlap m p (sint off)"
  have l0: "0 \<le> len p" by (simp add: len_def)
  have ovr: "0 \<le> ?ov" "?ov \<le> len p" using ps l0 True by (simp_all add: overlap_def)
  have w: "wrap64 (pos m + (len p - ?ov)) = pos m + (len p - ?ov)"
    using q ovr fit by (intro wrap64_id) (simp_all add: MaxInt_def)
  show ?thesis
    using True write_result_invariant [OF ps q, of p]
    by (simp add: WriteAt_def posOverflow_def writeFromPos_returns [OF ps fit] and_then_def w)
next
  case False
  then show ?thesis using i by (auto simp: WriteAt_def posOverflow_def)
qed

lemma invariant_WriteUInt64Var:
  assumes i: "invariant m" and fit: "len (buff m) + 10 \<le> MaxInt"
  shows "returns_with_invariant (WriteUInt64Var m x)"
proof -
  have "len (buff m) + len (uvarint x) \<le> MaxInt"
    using fit uvarint_length [of x] by (simp add: len_def)
  then show ?thesis using i by (simp add: WriteUInt64Var_Write invariant_Write)
qed


text \<open>
  C5. The buffers that \<^verbatim>\<open>NewByteBuffer\<close>, \<^verbatim>\<open>Reset\<close>, \<^verbatim>\<open>Clear\<close>, \<^verbatim>\<open>Clone\<close> and
  \<^verbatim>\<open>WriteByte\<close> return satisfy \<open>0 \<le> pos \<le> len buff\<close>. On a buffer that satisfies it
  (with lengths that fit Go's \<^verbatim>\<open>int\<close>), \<^verbatim>\<open>Seek\<close> and its variants, \<^verbatim>\<open>Read\<close>,
  \<^verbatim>\<open>ReadAt\<close>, \<^verbatim>\<open>Write\<close>, \<^verbatim>\<open>WriteAt\<close>, \<^verbatim>\<open>ReadByte\<close>, \<^verbatim>\<open>ByteAt\<close>,
  \<^verbatim>\<open>WriteUInt64Var\<close> and \<^verbatim>\<open>ReadUInt64Var\<close> return (they do not panic), and the buffer
  they return satisfies it again.
\<close>

theorem invariant_preserved:
  "invariant (NewByteBuffer sz) \<and> invariant (Reset m sz) \<and> invariant (Clear m) \<and>
   invariant (Clone m) \<and> invariant (fst (WriteByte m c)) \<and>
   (invariant m \<longrightarrow>
      invariant (fst (Seek m off w)) \<and> invariant (fst (SeekFromStart m off)) \<and>
      invariant (fst (SeekFromCurrent m off)) \<and> invariant (fst (SeekFromEnd m off)) \<and>
      invariant (fst (SeekToStart m)) \<and> invariant (fst (SeekToEnd m)) \<and>
      returns_with_invariant (ReadAt m p off) \<and> returns_with_invariant (ByteAt m i)) \<and>
   (invariant m \<and> len (buff m) \<le> MaxInt \<longrightarrow>
      returns_with_invariant (Read m p) \<and> returns_with_invariant (ReadByte m) \<and>
      returns_with_invariant (ReadUInt64Var m)) \<and>
   (invariant m \<and> len (buff m) + len p \<le> MaxInt \<longrightarrow>
      returns_with_invariant (Write m p) \<and> returns_with_invariant (WriteAt m p off)) \<and>
   (invariant m \<and> len (buff m) + 10 \<le> MaxInt \<longrightarrow>
      returns_with_invariant (WriteUInt64Var m x))"
proof (intro conjI impI)
  show "invariant (NewByteBuffer sz)" by (simp add: NewByteBuffer_def invariant_Reset)
  show "invariant (Reset m sz)" by (rule invariant_Reset)
  show "invariant (Clear m)" by (simp add: Clear_def invariant_Reset)
  show "invariant (Clone m)" by (rule invariant_Clone)
  show "invariant (fst (WriteByte m c))" by (rule invariant_WriteByte)
next
  assume i: "invariant m"
  show "invariant (fst (Seek m off w))" by (rule invariant_Seek [OF i])
  show "invariant (fst (SeekFromStart m off))" by (simp add: SeekFromStart_def invariant_Seek [OF i])
  show "invariant (fst (SeekFromCurrent m off))"
    by (simp add: SeekFromCurrent_def invariant_Seek [OF i])
  show "invariant (fst (SeekFromEnd m off))" by (simp add: SeekFromEnd_def invariant_Seek [OF i])
  show "invariant (fst (SeekToStart m))" by (simp add: SeekToStart_def invariant_Seek [OF i])
  show "invariant (fst (SeekToEnd m))" by (simp add: SeekToEnd_def invariant_Seek [OF i])
  show "returns_with_invariant (ReadAt m p off)" by (rule invariant_ReadAt [OF i])
  show "returns_with_invariant (ByteAt m i)" by (rule invariant_ByteAt [OF i])
next
  assume a: "invariant m \<and> len (buff m) \<le> MaxInt"
  show "returns_with_invariant (Read m p)" using a by (simp add: invariant_Read)
  show "returns_with_invariant (ReadByte m)" using a by (simp add: invariant_ReadByte)
  show "returns_with_invariant (ReadUInt64Var m)" using a by (simp add: invariant_ReadUInt64Var)
next
  assume a: "invariant m \<and> len (buff m) + len p \<le> MaxInt"
  show "returns_with_invariant (Write m p)" using a by (simp add: invariant_Write)
  show "returns_with_invariant (WriteAt m p off)" using a by (simp add: invariant_WriteAt)
next
  assume "invariant m \<and> len (buff m) + 10 \<le> MaxInt"
  then show "returns_with_invariant (WriteUInt64Var m x)" by (simp add: invariant_WriteUInt64Var)
qed

theorem invariant_preserved_witness:
  "invariant \<lparr>buff = [1, 2, 3], pos = 1\<rparr> \<and>
   len (buff \<lparr>buff = [1, 2, 3], pos = 1\<rparr>) + len [7, 8, 9 :: byte] \<le> MaxInt \<and>
   len (buff \<lparr>buff = [1, 2, 3], pos = 1\<rparr>) + 10 \<le> MaxInt \<and>
   invariant (fst (Seek \<lparr>buff = [1, 2, 3], pos = 1\<rparr> 1 SeekCurrent)) \<and>
   returns_with_invariant (ReadAt \<lparr>buff = [1, 2, 3], pos = 1\<rparr> [7, 8, 9] 1) \<and>
   returns_with_invariant (Read \<lparr>buff = [1, 2, 3], pos = 1\<rparr> [7, 8, 9]) \<and>
   returns_with_invariant (ReadByte \<lparr>buff = [1, 2, 3], pos = 1\<rparr>) \<and>
   returns_with_invariant (ReadUInt64Var \<lparr>buff = [1, 2, 3], pos = 1\<rparr>) \<and>
   returns_with_invariant (Write \<lparr>buff = [1, 2, 3], pos = 1\<rparr> [7, 8, 9]) \<and>
   returns_with_invariant (WriteAt \<lparr>buff = [1, 2, 3], pos = 1\<rparr> [7, 8, 9] 1) \<and>
   returns_with_invariant (WriteUInt64Var \<lparr>buff = [1, 2, 3], pos = 1\<rparr> 300)"
proof -
  let ?m = "\<lparr>buff = [1, 2, 3 :: byte], pos = 1\<rparr>"
  have i: "invariant ?m" by (simp add: invariant_def len_def)
  have f0: "invariant ?m \<and> len (buff ?m) \<le> MaxInt"
    by (simp add: invariant_def len_def MaxInt_def)
  have f1: "invariant ?m \<and> len (buff ?m) + len [7, 8, 9 :: byte] \<le> MaxInt"
    by (simp add: invariant_def len_def MaxInt_def)
  have f2: "invariant ?m \<and> len (buff ?m) + 10 \<le> MaxInt"
    by (simp add: invariant_def len_def MaxInt_def)
  note t = invariant_preserved [of 0 ?m 0 1 SeekCurrent "[7, 8, 9]" 0 300]
  note t5 = t [THEN conjunct2, THEN conjunct2, THEN conjunct2, THEN conjunct2, THEN conjunct2]
  note a = t5 [THEN conjunct1, THEN mp, OF i]
  note b = t5 [THEN conjunct2, THEN conjunct1, THEN mp, OF f0]
  note c = t5 [THEN conjunct2, THEN conjunct2, THEN conjunct1, THEN mp, OF f1]
  note d = t5 [THEN conjunct2, THEN conjunct2, THEN conjunct2, THEN mp, OF f2]
  show ?thesis
    using f1 f2 a b c d by blast
qed

end
